theory Spec2Isabelle
  imports Main "HOL-Library.Word"
begin

chapter \<open>The program\<close>

section \<open>Basic data\<close>

text \<open>
  Byte slices are lists of 8-bit words. A \<open>cid.Cid\<close> is a struct holding one string, and
  the code compares CIDs by value (\<open>*c != *val\<close>), which is equality of that string.
\<close>

type_synonym bytes = "8 word list"

datatype cid = CidStr (str: string)

subsection \<open>Wire-format operations and repository operations\<close>

text \<open>
  \<open>comatproto.SyncSubscribeRepos_RepoOp\<close>: the pointers \<open>Cid\<close> and \<open>Prev\<close> are
  optional values, \<open>None\<close> for \<open>nil\<close>.
\<close>

record RepoOp =
  Action :: string
  Cid :: "cid option"
  Path :: string
  Prev :: "cid option"

text \<open>
  \<open>repo.Operation\<close> has the fields \<open>Path\<close>, \<open>Prev\<close> and \<open>Value\<close>; they carry the
  prefix \<open>op_\<close> here, since two of the names are fields of \<open>RepoOp\<close> already.
\<close>

record Operation =
  op_Path :: string
  op_Prev :: "cid option"
  op_Value :: "cid option"

subsection \<open>Errors\<close>

text \<open>
  Go errors as values. \<open>External\<close> is an error made by code outside the files at hand and
  handed on unchanged; \<open>Errorf\<close> is \<open>fmt.Errorf\<close> with a constant message;
  \<open>ErrorfS\<close> formats a string argument (\<open>%s\<close>) after the given prefix, \<open>ErrorfN\<close>
  an integer (\<open>%d\<close>); \<open>ErrorfW\<close> wraps an error (\<open>%w\<close>) after the given prefix;
  \<open>ErrorfD\<close> formats a \<open>time.Duration\<close> (in nanoseconds) between a prefix and a
  suffix; \<open>revOutOfOrderError\<close> is the struct of that name with its field \<open>dt\<close>;
  \<open>ErrInvalidSignature\<close> is the variable of that name of package \<open>crypto\<close>; \<open>Panic\<close>
  stands for a run-time panic, where the function does not return to its caller.
\<close>

datatype error =
    External string
  | Errorf string
  | ErrorfS string string
  | ErrorfN string int
  | ErrorfW string error
  | ErrorfD string int string
  | revOutOfOrderError int
  | ErrInvalidSignature
  | Panic string

section \<open>ParseCommitOps\<close>

text \<open>
  The loop of \<open>ParseCommitOps\<close>: \<open>out\<close> is the slice built so far, the second list is
  what is left of \<open>ops\<close>. The first op that fails its test ends the function with the
  error; an op that passes is appended to \<open>out\<close>.
\<close>

fun ParseCommitOps_loop :: "Operation list \<Rightarrow> RepoOp list \<Rightarrow> error + Operation list" where
  "ParseCommitOps_loop out [] = Inr out"
| "ParseCommitOps_loop out (rop # ops) =
     (if Action rop = ''create'' then
        (if Cid rop = None \<or> Prev rop \<noteq> None then Inl (Errorf ''invalid repoOp: create'')
         else ParseCommitOps_loop
                (out @ [\<lparr>op_Path = Path rop, op_Prev = None, op_Value = Cid rop\<rparr>]) ops)
      else if Action rop = ''delete'' then
        (if Cid rop \<noteq> None \<or> Prev rop = None then Inl (Errorf ''invalid repoOp: delete'')
         else ParseCommitOps_loop
                (out @ [\<lparr>op_Path = Path rop, op_Prev = Prev rop, op_Value = None\<rparr>]) ops)
      else if Action rop = ''update'' then
        (if Cid rop = None \<or> Prev rop = None then Inl (Errorf ''invalid repoOp: update'')
         else ParseCommitOps_loop
                (out @ [\<lparr>op_Path = Path rop, op_Prev = Prev rop, op_Value = Cid rop\<rparr>]) ops)
      else Inl (ErrorfS ''invalid repoOp action: '' (Action rop)))"

definition ParseCommitOps :: "RepoOp list \<Rightarrow> error + Operation list" where
  "ParseCommitOps ops = ParseCommitOps_loop [] ops"

subsection \<open>The specification's reading of a well-formed op\<close>

text \<open>
  The invariant per action, as the specification words it: create has a \<open>cid\<close> and no
  \<open>prev\<close>; delete has a \<open>prev\<close> and no \<open>cid\<close>; update has both; any other action is
  unknown.
\<close>

definition op_invariant :: "RepoOp \<Rightarrow> bool" where
  "op_invariant rop =
     ((Action rop = ''create'' \<and> Cid rop \<noteq> None \<and> Prev rop = None) \<or>
      (Action rop = ''delete'' \<and> Cid rop = None \<and> Prev rop \<noteq> None) \<or>
      (Action rop = ''update'' \<and> Cid rop \<noteq> None \<and> Prev rop \<noteq> None))"

text \<open>The operation a well-formed op stands for: same path, value the \<open>cid\<close>, same \<open>prev\<close>.\<close>

definition to_Operation :: "RepoOp \<Rightarrow> Operation" where
  "to_Operation rop = \<lparr>op_Path = Path rop, op_Prev = Prev rop, op_Value = Cid rop\<rparr>"

section \<open>Package crypto: P-256 keys\<close>

subsection \<open>The standard library, as parameters\<close>

text \<open>
  \<open>sha256.Sum256\<close>, \<open>ecdsa.Sign\<close> and \<open>ecdsa.Verify\<close> belong to Go's standard library.
  They are parameters of the model: \<open>'priv\<close> and \<open>'pub\<close> are \<open>ecdsa.PrivateKey\<close> and
  \<open>ecdsa.PublicKey\<close>, and \<open>'rnd\<close> is what \<open>ecdsa.Sign\<close> reads from \<open>rand.Reader\<close>, so
  that signing is a function of it. A \<open>big.Int\<close> is an \<open>int\<close>.
\<close>

record ('priv, 'pub, 'rnd) ecdsa_pkg =
  Sum256 :: "bytes \<Rightarrow> bytes"
  Sign :: "'rnd \<Rightarrow> 'priv \<Rightarrow> bytes \<Rightarrow> error + int \<times> int"
  Verify :: "'pub \<Rightarrow> bytes \<Rightarrow> int \<Rightarrow> int \<Rightarrow> bool"

text \<open>
  \<open>big.Int.SetBytes\<close> reads a big-endian unsigned integer. \<open>big.Int.FillBytes\<close> writes the
  absolute value, big-endian and zero-extended, into a buffer of the given length, and
  panics when the value does not fit (\<open>None\<close>).
\<close>

definition SetBytes :: "bytes \<Rightarrow> int" where
  "SetBytes buf = foldl (\<lambda>v b. v * 256 + uint b) 0 buf"

fun big_endian :: "nat \<Rightarrow> int \<Rightarrow> bytes" where
  "big_endian 0 x = []"
| "big_endian (Suc k) x = big_endian k (x div 256) @ [word_of_int (x mod 256)]"

definition FillBytes :: "int \<Rightarrow> nat \<Rightarrow> bytes option" where
  "FillBytes x k = (if \<bar>x\<bar> < 256 ^ k then Some (big_endian k \<bar>x\<bar>) else None)"

subsection \<open>The low-S helpers\<close>

text \<open>
  Modelled from the spec: the order \<open>n\<close> of the curve P-256, a package variable that the
  file of the P-256 keys does not declare. It is the "curve order" of the specification,
  the constant \<open>N\<close> of the curve's parameters.
\<close>

definition curveN_P256 :: int where
  "curveN_P256 =
     115792089210356248762697446949407573529996955224135760342422259061068512044369"

text \<open>
  Modelled from the spec: the helper \<open>sigSIsLowS_P256\<close>, which \<open>HashAndVerify\<close> calls
  and the file does not define. The specification requires "low-S form: reject any
  signature where \<open>s > n/2\<close>", and calls a signature low-S when \<open>s\<close> "lies in the lower
  half of the curve order". The order is odd, so \<open>s \<le> n div 2\<close> is \<open>s \<le> n/2\<close>.
\<close>

definition sigSIsLowS_P256 :: "int \<Rightarrow> bool" where
  "sigSIsLowS_P256 s = (s \<le> curveN_P256 div 2)"

text \<open>
  Modelled from the spec: the helper \<open>sigSToLowS_P256\<close>, which \<open>HashAndSign\<close> calls and
  the file does not define. The specification asks for "low-S normalization" and that
  signing "must emit low-S", without giving the computation; the model takes the usual
  one, which leaves a low \<open>s\<close> as it is and replaces a high \<open>s\<close> by \<open>n - s\<close>.
\<close>

definition sigSToLowS_P256 :: "int \<Rightarrow> int" where
  "sigSToLowS_P256 s = (if \<not> sigSIsLowS_P256 s then curveN_P256 - s else s)"

subsection \<open>HashAndSign and HashAndVerify\<close>

datatype 'priv PrivateKeyP256 = PrivateKeyP256 (privP256: 'priv)

datatype 'pub PublicKeyP256 = PublicKeyP256 (pubP256: 'pub)

definition HashAndSign ::
  "('priv, 'pub, 'rnd) ecdsa_pkg \<Rightarrow> 'rnd \<Rightarrow> 'priv PrivateKeyP256 \<Rightarrow> bytes \<Rightarrow> error + bytes" where
  "HashAndSign E rnd k content =
     (let hash = Sum256 E content in
      case Sign E rnd (privP256 k) hash of
        Inl err \<Rightarrow> Inl (ErrorfW ''crypto error signing with P-256/secp256r1 private key: '' err)
      | Inr (r, s) \<Rightarrow>
          (let s = sigSToLowS_P256 s in
           case FillBytes r 32 of
             None \<Rightarrow> Inl (Panic ''math/big: buffer too small to fit value'')
           | Some sig_r \<Rightarrow>
               (case FillBytes s 32 of
                  None \<Rightarrow> Inl (Panic ''math/big: buffer too small to fit value'')
                | Some sig_s \<Rightarrow> Inr (sig_r @ sig_s))))"

text \<open>The result of \<open>HashAndVerify\<close> is the error it returns, \<open>None\<close> for \<open>nil\<close>.\<close>

definition HashAndVerify ::
  "('priv, 'pub, 'rnd) ecdsa_pkg \<Rightarrow> 'pub PublicKeyP256 \<Rightarrow> bytes \<Rightarrow> bytes \<Rightarrow> error option" where
  "HashAndVerify E k content sig =
     (let hash = Sum256 E content in
      if length sig \<noteq> 64 then
        Some (ErrorfN ''crypto: P-256 signatures must be 64 bytes, got len='' (int (length sig)))
      else
        (let r = SetBytes (take 32 sig); s = SetBytes (drop 32 sig) in
         if \<not> Verify E (pubP256 k) hash r s then Some ErrInvalidSignature
         else if \<not> sigSIsLowS_P256 s then Some ErrInvalidSignature
         else None))"

subsection \<open>A stand-in for the standard library, for concrete inputs\<close>

text \<open>
  To evaluate the two functions at concrete inputs the parameters need values. This
  stand-in is not ECDSA: the digest is the content itself, a key is an integer \<open>d\<close>, and
  a pair \<open>(r, s)\<close> is accepted when \<open>s\<close> is \<open>v = (hash + r * d) mod n\<close> or \<open>n - v\<close>. It
  shares with ECDSA what matters to the callers: \<open>r\<close> and \<open>s\<close> lie between \<open>1\<close> and
  \<open>n - 1\<close>, signing may return an \<open>s\<close> in either half, and \<open>(r, n - s)\<close> is accepted
  whenever \<open>(r, s)\<close> is.
\<close>

definition fx_ecdsa :: "(int, int, int) ecdsa_pkg" where
  "fx_ecdsa =
     \<lparr>Sum256 = (\<lambda>content. content),
      Sign = (\<lambda>rnd d hash.
        (let r = 1 + rnd mod (curveN_P256 - 1); v = (SetBytes hash + r * d) mod curveN_P256 in
         if v = 0 then Inl (External ''zero'')
         else Inr (r, if even rnd then v else curveN_P256 - v))),
      Verify = (\<lambda>q hash r s.
        0 < r \<and> r < curveN_P256 \<and> 0 < s \<and> s < curveN_P256 \<and>
        (let v = (SetBytes hash + r * q) mod curveN_P256 in s = v \<or> s = curveN_P256 - v))\<rparr>"

section \<open>Package relay: the validator\<close>

subsection \<open>Time\<close>

text \<open>
  A \<open>time.Time\<close> is an instant, here the integer number of nanoseconds since the Unix
  epoch (the times compared are made by \<open>TID.Time\<close>, which carry no monotonic clock
  reading, so \<open>Before\<close> and \<open>After\<close> compare instants). A \<open>time.Duration\<close> is an
  \<open>int64\<close> of nanoseconds, and \<open>Time.Sub\<close> saturates at the smallest and the largest
  duration.
\<close>

definition maxDuration :: int where
  "maxDuration = 2 ^ 63 - 1"

definition minDuration :: int where
  "minDuration = - (2 ^ 63)"

definition Time_Before :: "int \<Rightarrow> int \<Rightarrow> bool" where
  "Time_Before t u = (t < u)"

definition Time_After :: "int \<Rightarrow> int \<Rightarrow> bool" where
  "Time_After t u = (u < t)"

definition Time_Add :: "int \<Rightarrow> int \<Rightarrow> int" where
  "Time_Add t d = t + d"

definition Time_Sub :: "int \<Rightarrow> int \<Rightarrow> int" where
  "Time_Sub t u =
     (if maxDuration < t - u then maxDuration
      else if t - u < minDuration then minDuration
      else t - u)"

definition time_Hour :: int where
  "time_Hour = 3600 * 1000000000"

definition defaultMaxRevFuture :: int where
  "defaultMaxRevFuture = time_Hour"

subsection \<open>Messages\<close>

record Host =
  Hostname :: string

record Account =
  UID :: "64 word"

text \<open>\<open>comatproto.SyncSubscribeRepos_Commit\<close>, the \<open>#commit\<close> message.\<close>

record SyncSubscribeRepos_Commit =
  Blocks :: bytes
  Ops :: "RepoOp list"
  PrevData :: "cid option"
  Rebase :: bool
  Repo :: string
  Rev :: string
  Seq :: int
  Time :: string
  TooBig :: bool

text \<open>
  \<open>comatproto.SyncSubscribeRepos_Sync\<close>, the \<open>#sync\<close> message; its fields \<open>Blocks\<close>,
  \<open>Did\<close>, \<open>Rev\<close>, \<open>Seq\<close> and \<open>Time\<close> carry the prefix \<open>sync_\<close>.
\<close>

record SyncSubscribeRepos_Sync =
  sync_Blocks :: bytes
  sync_Did :: string
  sync_Rev :: string
  sync_Seq :: int
  sync_Time :: string

text \<open>
  \<open>repo.Commit\<close>, the commit object decoded from the CAR file; the fields the validator
  reads are \<open>DID\<close>, \<open>Rev\<close> and \<open>Data\<close>, here with the prefix \<open>commit_\<close>.
\<close>

record Commit =
  commit_DID :: string
  commit_Rev :: string
  commit_Data :: cid
  commit_Sig :: bytes

subsection \<open>The packages the validator calls, as parameters\<close>

text \<open>
  The validator calls the packages \<open>syntax\<close>, \<open>repo\<close> and \<open>identity\<close>, whose code is
  not among the files at hand. Their functions are parameters of the model, collected in
  one record, so that every theorem holds for whatever they compute. The type variables
  stand for \<open>syntax.DID\<close>, \<open>syntax.TID\<close>, \<open>repo.Repo\<close>, the tree \<open>mst.Tree\<close>,
  \<open>identity.Identity\<close> and the public key. A function returning \<open>(value, error)\<close>
  returns a sum; one returning only an error returns \<open>error option\<close>. \<open>InvertOp\<close>
  changes the tree it is given in place: here it returns the changed tree. The
  \<open>context.Context\<close> arguments are left out.
\<close>

record ('did, 'tid, 'repo, 'mst, 'ident, 'key) pkgs =
  ParseDID :: "string \<Rightarrow> error + 'did"
  DID_String :: "'did \<Rightarrow> string"
  ParseTID :: "string \<Rightarrow> error + 'tid"
  TID_String :: "'tid \<Rightarrow> string"
  TID_Time :: "'tid \<Rightarrow> int"
  ParseDatetime :: "string \<Rightarrow> error + string"
  ParseRepoPath :: "string \<Rightarrow> error + string \<times> string"
  LoadRepoFromCAR :: "bytes \<Rightarrow> error + Commit \<times> 'repo"
  LoadCommitFromCAR :: "bytes \<Rightarrow> error + Commit"
  GetRecordCID :: "'repo \<Rightarrow> string \<Rightarrow> string \<Rightarrow> error + cid"
  GetRecordBytes :: "'repo \<Rightarrow> string \<Rightarrow> string \<Rightarrow> error + bytes"
  MST :: "'repo \<Rightarrow> 'mst"
  Copy :: "'mst \<Rightarrow> 'mst"
  RootCID :: "'mst \<Rightarrow> error + cid"
  NormalizeOps :: "Operation list \<Rightarrow> error + Operation list"
  InvertOp :: "'mst \<Rightarrow> Operation \<Rightarrow> error + 'mst"
  PublicKey :: "'ident \<Rightarrow> error + 'key"
  VerifySignature :: "Commit \<Rightarrow> 'key \<Rightarrow> error option"

subsection \<open>The validator and its counters\<close>

text \<open>
  The Prometheus counters are global state; each \<open>Inc()\<close> is recorded as one entry of a
  log, with the counter's name and its label values. Log lines are not modelled.
\<close>

datatype metric =
    commitVerifyStarts
  | commitVerifyErrors string string
  | commitVerifyWarnings string string
  | commitVerifyOkish string string
  | commitVerifyOk string
  | syncVerifyErrors string string

text \<open>
  The struct \<open>Validator\<close>. The map \<open>userLocks\<close> holds pointers to \<open>userLock\<close> structs,
  here addresses (natural numbers) into a heap; \<open>directory\<close> is an interface value,
  \<open>None\<close> when \<open>nil\<close>, and otherwise its method \<open>LookupDID\<close>. The mutex \<open>lklk\<close> has no
  field: the sections it guards are atomic steps (see the lock table below).
\<close>

record ('did, 'ident) Validator =
  userLocks :: "64 word \<rightharpoonup> nat"
  directory :: "('did \<Rightarrow> error + 'ident) option"
  maxRevFuture :: int
  ErrRevTooFarFuture :: error
  AllowSignatureNotFound :: bool

definition NewValidator :: "('did \<Rightarrow> error + 'ident) option \<Rightarrow> ('did, 'ident) Validator" where
  "NewValidator dir =
     (let maxRevFuture = defaultMaxRevFuture;
          ErrRevTooFarFuture = ErrorfD ''new rev is > '' maxRevFuture '' in the future''
      in \<lparr>userLocks = Map.empty,
          directory = dir,
          maxRevFuture = maxRevFuture,
          ErrRevTooFarFuture = ErrRevTooFarFuture,
          AllowSignatureNotFound = True\<rparr>)"

subsection \<open>VerifyCommitSignature\<close>

text \<open>
  The argument \<open>hasWarning\<close> is a pointer to a boolean: \<open>None\<close> for \<open>nil\<close>, \<open>Some b\<close> for
  a pointer to a variable holding \<open>b\<close>. The function returns its error (\<open>None\<close> for
  \<open>nil\<close>), what the pointer points to afterwards, and the counters it incremented.
\<close>

definition VerifyCommitSignature ::
  "('did, 'tid, 'repo, 'mst, 'ident, 'key) pkgs \<Rightarrow> ('did, 'ident) Validator \<Rightarrow> Commit \<Rightarrow>
     string \<Rightarrow> bool option \<Rightarrow> error option \<times> bool option \<times> metric list" where
  "VerifyCommitSignature D val commit hostname hasWarning =
     (case directory val of
        None \<Rightarrow> (None, hasWarning, [])
      | Some LookupDID \<Rightarrow>
     (case ParseDID D (commit_DID commit) of
        Inl err \<Rightarrow>
          (Some (ErrorfW ''bad car DID: '' err), hasWarning,
           [commitVerifyErrors hostname ''sig1''])
      | Inr xdid \<Rightarrow>
     (case LookupDID xdid of
        Inl err \<Rightarrow>
          (if AllowSignatureNotFound val then
             (None, (case hasWarning of None \<Rightarrow> None | Some _ \<Rightarrow> Some True),
              [commitVerifyWarnings hostname ''nok''])
           else
             (Some (ErrorfW ''DID lookup failed: '' err), hasWarning,
              [commitVerifyErrors hostname ''sig2'']))
      | Inr ident \<Rightarrow>
     (case PublicKey D ident of
        Inl err \<Rightarrow>
          (Some (ErrorfW ''no atproto pubkey: '' err), hasWarning,
           [commitVerifyErrors hostname ''sig3''])
      | Inr pk \<Rightarrow>
     (case VerifySignature D commit pk of
        Some err \<Rightarrow>
          (Some (ErrorfW ''invalid signature: '' err), hasWarning,
           [commitVerifyErrors hostname ''sig4''])
      | None \<Rightarrow> (None, hasWarning, []))))))"

subsection \<open>VerifyCommitMessage\<close>

text \<open>
  \<open>VerifyCommitMessage\<close> returns \<open>(*repo.Repo, error)\<close>. The model returns that result as
  a sum, together with the final value of the local variable \<open>hasWarning\<close> and the log of
  the counters incremented. The argument \<open>now\<close> is the reading of \<open>time.Now()\<close>. The
  function is translated in pieces, in the order of the source; each piece names the lines
  it covers.
\<close>

text \<open>
  The loop over \<open>msg.Ops\<close> that loads the records: for each create or update op with a
  CID, the path must parse, the tree must hold that CID at the path, and the record block
  must be present. The result is the first failure, as the error and the counter label,
  or \<open>None\<close> when the loop runs to its end.
\<close>

fun checkRecords ::
  "('did, 'tid, 'repo, 'mst, 'ident, 'key) pkgs \<Rightarrow> 'repo \<Rightarrow> RepoOp list \<Rightarrow>
     (error \<times> string) option" where
  "checkRecords D repoFragment [] = None"
| "checkRecords D repoFragment (op # ops) =
     (case (if Action op = ''create'' \<or> Action op = ''update'' then Cid op else None) of
        None \<Rightarrow> checkRecords D repoFragment ops
      | Some c \<Rightarrow>
     (case ParseRepoPath D (Path op) of
        Inl err \<Rightarrow> Some (ErrorfW ''invalid repo path in ops list: '' err, ''opp'')
      | Inr (nsid, rkey) \<Rightarrow>
     (case GetRecordCID D repoFragment nsid rkey of
        Inl err \<Rightarrow> Some (err, ''rcid'')
      | Inr v \<Rightarrow>
          if c \<noteq> v then Some (Errorf ''record op doesn't match MST tree value'', ''opc'')
          else
     (case GetRecordBytes D repoFragment nsid rkey of
        Inl err \<Rightarrow> Some (err, ''rec'')
      | Inr _ \<Rightarrow> checkRecords D repoFragment ops))))"

text \<open>
  The loop that looks for a legacy op: the first delete op without \<open>Prev\<close> gives the
  label \<open>del\<close>, the first update op without \<open>Prev\<close> the label \<open>up\<close>, and the function
  returns there; \<open>None\<close> when the loop runs to its end.
\<close>

fun legacyOp :: "RepoOp list \<Rightarrow> string option" where
  "legacyOp [] = None"
| "legacyOp (o1 # ops) =
     (if Action o1 = ''delete'' then (if Prev o1 = None then Some ''del'' else legacyOp ops)
      else if Action o1 = ''update'' then (if Prev o1 = None then Some ''up'' else legacyOp ops)
      else legacyOp ops)"

text \<open>The loop that inverts each normalised op on the copied tree, in the order of the list.\<close>

fun invertOps ::
  "('did, 'tid, 'repo, 'mst, 'ident, 'key) pkgs \<Rightarrow> 'mst \<Rightarrow> Operation list \<Rightarrow> error + 'mst" where
  "invertOps D invTree [] = Inr invTree"
| "invertOps D invTree (op # ops) =
     (case InvertOp D invTree op of
        Inl err \<Rightarrow> Inl err
      | Inr invTree' \<Rightarrow> invertOps D invTree' ops)"

text \<open>
  The branch \<open>msg.PrevData != nil\<close>, with \<open>c\<close> the CID \<open>msg.PrevData\<close> points to: the
  comparison with the argument \<open>prevData\<close>, then the inversion check.
\<close>

definition checkPrevData ::
  "('did, 'tid, 'repo, 'mst, 'ident, 'key) pkgs \<Rightarrow> string \<Rightarrow> SyncSubscribeRepos_Commit \<Rightarrow>
     'repo \<Rightarrow> cid \<Rightarrow> cid option \<Rightarrow> bool \<Rightarrow> metric list \<Rightarrow>
     (error + 'repo) \<times> bool \<times> metric list" where
  "checkPrevData D hostname msg repoFragment c prevData hasWarning0 m0 =
     (let (hasWarning, m) =
        (case prevData of
           Some p \<Rightarrow>
             if c \<noteq> p then (True, m0 @ [commitVerifyWarnings hostname ''pr''])
             else (hasWarning0, m0)
         | None \<Rightarrow> (hasWarning0, m0))
      in
     (case ParseCommitOps (Ops msg) of
        Inl err \<Rightarrow> (Inl err, hasWarning, m @ [commitVerifyErrors hostname ''pop''])
      | Inr ops \<Rightarrow>
     (case NormalizeOps D ops of
        Inl err \<Rightarrow> (Inl err, hasWarning, m @ [commitVerifyErrors hostname ''nop''])
      | Inr ops \<Rightarrow>
     (case invertOps D (Copy D (MST D repoFragment)) ops of
        Inl err \<Rightarrow> (Inl err, hasWarning, m @ [commitVerifyErrors hostname ''inv''])
      | Inr invTree \<Rightarrow>
     (case RootCID D invTree of
        Inl err \<Rightarrow> (Inl err, hasWarning, m @ [commitVerifyErrors hostname ''it''])
      | Inr computed \<Rightarrow>
          if computed \<noteq> c then
            (Inl (Errorf ''inverted tree root didn't match prevData''), hasWarning,
             m @ [commitVerifyErrors hostname ''pd''])
          else
            (Inr repoFragment, hasWarning,
             m @ [if prevData = None then commitVerifyOkish hostname ''new''
                  else if hasWarning then commitVerifyOkish hostname ''warn''
                  else commitVerifyOk hostname]))))))"

text \<open>
  From the loop over the records to the end of the function: the record checks, the
  return for a legacy op, and the check of \<open>msg.PrevData\<close>.
\<close>

definition VerifyCommitMessage_ops ::
  "('did, 'tid, 'repo, 'mst, 'ident, 'key) pkgs \<Rightarrow> string \<Rightarrow> SyncSubscribeRepos_Commit \<Rightarrow>
     'repo \<Rightarrow> cid option \<Rightarrow> bool \<Rightarrow> metric list \<Rightarrow>
     (error + 'repo) \<times> bool \<times> metric list" where
  "VerifyCommitMessage_ops D hostname msg repoFragment prevData hasWarning m =
     (case checkRecords D repoFragment (Ops msg) of
        Some (err, label) \<Rightarrow> (Inl err, hasWarning, m @ [commitVerifyErrors hostname label])
      | None \<Rightarrow>
     (case legacyOp (Ops msg) of
        Some label \<Rightarrow> (Inr repoFragment, hasWarning, m @ [commitVerifyOkish hostname label])
      | None \<Rightarrow>
     (case PrevData msg of
        Some c \<Rightarrow> checkPrevData D hostname msg repoFragment c prevData hasWarning m
      | None \<Rightarrow> (Inr repoFragment, hasWarning, m @ [commitVerifyOkish hostname ''old'']))))"

text \<open>
  From the start of the function to the call of \<open>VerifyCommitSignature\<close>: the DID, the
  rev and its two time checks, the timestamp, the two flags, the CAR file, the comparison
  of the commit object with the message, and the signature. On success the result is the
  repo fragment loaded from the CAR file.
\<close>

definition VerifyCommitMessage_envelope ::
  "('did, 'tid, 'repo, 'mst, 'ident, 'key) pkgs \<Rightarrow> ('did, 'ident) Validator \<Rightarrow> int \<Rightarrow> Host \<Rightarrow>
     SyncSubscribeRepos_Commit \<Rightarrow> 'tid option \<Rightarrow> (error + 'repo) \<times> bool \<times> metric list" where
  "VerifyCommitMessage_envelope D val now host msg prevRev =
     (let hostname = Hostname host; hasWarning = False; m = [commitVerifyStarts] in
     (case ParseDID D (Repo msg) of
        Inl err \<Rightarrow> (Inl err, hasWarning, m @ [commitVerifyErrors hostname ''did''])
      | Inr did \<Rightarrow>
     (case ParseTID D (Rev msg) of
        Inl err \<Rightarrow> (Inl err, hasWarning, m @ [commitVerifyErrors hostname ''tid''])
      | Inr rev' \<Rightarrow>
     (case (case prevRev of
              None \<Rightarrow> None
            | Some p \<Rightarrow>
                (let curTime = TID_Time D rev'; prevTime = TID_Time D p in
                 if Time_Before curTime prevTime then Some (Time_Sub prevTime curTime)
                 else None)) of
        Some dt \<Rightarrow>
          (Inl (revOutOfOrderError dt), hasWarning, m @ [commitVerifyErrors hostname ''revb''])
      | None \<Rightarrow>
          if Time_After (TID_Time D rev') (Time_Add now (maxRevFuture val)) then
            (Inl (ErrRevTooFarFuture val), hasWarning, m @ [commitVerifyErrors hostname ''revf''])
          else
     (case ParseDatetime D (Time msg) of
        Inl err \<Rightarrow> (Inl err, hasWarning, m @ [commitVerifyErrors hostname ''time''])
      | Inr _ \<Rightarrow>
     (let (hasWarning, m) =
            (if TooBig msg then (True, m @ [commitVerifyWarnings hostname ''big''])
             else (hasWarning, m));
          (hasWarning, m) =
            (if Rebase msg then (True, m @ [commitVerifyWarnings hostname ''reb''])
             else (hasWarning, m))
      in
     (case LoadRepoFromCAR D (Blocks msg) of
        Inl err \<Rightarrow> (Inl err, hasWarning, m @ [commitVerifyErrors hostname ''car''])
      | Inr (commit, repoFragment) \<Rightarrow>
          if commit_Rev commit \<noteq> TID_String D rev' then
            (Inl (Errorf ''rev did not match commit''), hasWarning,
             m @ [commitVerifyErrors hostname ''rev''])
          else if commit_DID commit \<noteq> DID_String D did then
            (Inl (Errorf ''rev did not match commit''), hasWarning,
             m @ [commitVerifyErrors hostname ''did2''])
          else
     (case VerifyCommitSignature D val commit hostname (Some hasWarning) of
        (Some err, hw, ms) \<Rightarrow> (Inl err, (case hw of Some b \<Rightarrow> b | None \<Rightarrow> hasWarning), m @ ms)
      | (None, hw, ms) \<Rightarrow>
          (Inr repoFragment, (case hw of Some b \<Rightarrow> b | None \<Rightarrow> hasWarning), m @ ms)))))))))"

definition VerifyCommitMessage ::
  "('did, 'tid, 'repo, 'mst, 'ident, 'key) pkgs \<Rightarrow> ('did, 'ident) Validator \<Rightarrow> int \<Rightarrow> Host \<Rightarrow>
     SyncSubscribeRepos_Commit \<Rightarrow> 'tid option \<Rightarrow> cid option \<Rightarrow>
     (error + 'repo) \<times> bool \<times> metric list" where
  "VerifyCommitMessage D val now host msg prevRev prevData =
     (case VerifyCommitMessage_envelope D val now host msg prevRev of
        (Inl err, hasWarning, m) \<Rightarrow> (Inl err, hasWarning, m)
      | (Inr repoFragment, hasWarning, m) \<Rightarrow>
          VerifyCommitMessage_ops D (Hostname host) msg repoFragment prevData hasWarning m)"

subsection \<open>HandleSync and the body of HandleCommit\<close>

text \<open>
  \<open>HandleSync\<close> takes the host and the \<open>#sync\<close> message; it has no account argument and
  does not call \<open>lockUser\<close>. It returns the data CID of the commit or an error, here
  with the counters it incremented.
\<close>

definition HandleSync ::
  "('did, 'tid, 'repo, 'mst, 'ident, 'key) pkgs \<Rightarrow> ('did, 'ident) Validator \<Rightarrow> int \<Rightarrow> Host \<Rightarrow>
     SyncSubscribeRepos_Sync \<Rightarrow> (error + cid) \<times> metric list" where
  "HandleSync D val now host msg =
     (let hostname = Hostname host; hasWarning = False in
     (case ParseDID D (sync_Did msg) of
        Inl err \<Rightarrow> (Inl err, [syncVerifyErrors hostname ''did''])
      | Inr did \<Rightarrow>
     (case ParseTID D (sync_Rev msg) of
        Inl err \<Rightarrow> (Inl err, [syncVerifyErrors hostname ''tid''])
      | Inr rev' \<Rightarrow>
          if Time_After (TID_Time D rev') (Time_Add now (maxRevFuture val)) then
            (Inl (ErrRevTooFarFuture val), [syncVerifyErrors hostname ''revf''])
          else
     (case ParseDatetime D (sync_Time msg) of
        Inl err \<Rightarrow> (Inl err, [syncVerifyErrors hostname ''time''])
      | Inr _ \<Rightarrow>
     (case LoadCommitFromCAR D (sync_Blocks msg) of
        Inl err \<Rightarrow> (Inl err, [commitVerifyErrors hostname ''car''])
      | Inr commit \<Rightarrow>
          if commit_Rev commit \<noteq> TID_String D rev' then
            (Inl (Errorf ''rev did not match commit''), [commitVerifyErrors hostname ''rev''])
          else if commit_DID commit \<noteq> DID_String D did then
            (Inl (Errorf ''rev did not match commit''), [commitVerifyErrors hostname ''did2''])
          else
     (case VerifyCommitSignature D val commit hostname (Some hasWarning) of
        (Some err, hw, ms) \<Rightarrow> (Inl err, ms)
      | (None, hw, ms) \<Rightarrow> (Inr (commit_Data commit), ms)))))))"

text \<open>
  What \<open>HandleCommit\<close> computes between taking the user lock and releasing it: the call
  of \<open>VerifyCommitMessage\<close> and the root CID of the tree of the repo fragment.
\<close>

definition HandleCommit_body ::
  "('did, 'tid, 'repo, 'mst, 'ident, 'key) pkgs \<Rightarrow> ('did, 'ident) Validator \<Rightarrow> int \<Rightarrow> Host \<Rightarrow>
     SyncSubscribeRepos_Commit \<Rightarrow> 'tid option \<Rightarrow> cid option \<Rightarrow> (error + cid) \<times> metric list" where
  "HandleCommit_body D val now host commit prevRev prevData =
     (case VerifyCommitMessage D val now host commit prevRev prevData of
        (Inl err, hasWarning, m) \<Rightarrow> (Inl err, m)
      | (Inr repoFragment, hasWarning, m) \<Rightarrow>
     (case RootCID D (MST D repoFragment) of
        Inl err \<Rightarrow> (Inl err, m)
      | Inr newRootCid \<Rightarrow> (Inr newRootCid, m)))"

subsection \<open>A stand-in for the packages, for concrete inputs\<close>

text \<open>
  Modelled from the spec: a small stand-in for the packages \<open>syntax\<close>, \<open>repo\<close> and
  \<open>identity\<close>, which are not among the files at hand. A DID is a string starting with \<open>did:\<close>. A TID is a
  "13-char sortable string encoding microseconds + randomness": 13 characters of the
  sortable base-32 alphabet, the microseconds above the low ten bits. The tree is an
  "ordered key\<rightarrow>CID mapping with a canonical root CID": a list of pairs sorted by path, its
  root CID made from the list. Inverting an op is "the exact inverse": inverting a create
  deletes the path, inverting a delete "re-inserts the prev CID", inverting an update
  "restores prev". Normalising sorts the ops by path and refuses two ops on one path.

  The stand-in gives the parameters values, so that the validator can be evaluated at
  concrete messages. It is not the code of the packages, and the theorems about the
  validator hold for every value of the parameters.
\<close>

definition fx_b32 :: "char \<Rightarrow> int" where
  "fx_b32 ch = int (length (takeWhile (\<lambda>x. x \<noteq> ch) ''234567abcdefghijklmnopqrstuvwxyz''))"

definition fx_ParseTID :: "string \<Rightarrow> error + string" where
  "fx_ParseTID s =
     (if length s = 13 \<and> list_all (\<lambda>ch. ch \<in> set ''234567abcdefghijklmnopqrstuvwxyz'') s
      then Inr s else Inl (External ''TID syntax''))"

definition fx_TID_Time :: "string \<Rightarrow> int" where
  "fx_TID_Time s = (foldl (\<lambda>v ch. v * 32 + fx_b32 ch) 0 s div 1024) * 1000"

definition fx_ParseDID :: "string \<Rightarrow> error + string" where
  "fx_ParseDID s = (if take 4 s = ''did:'' then Inr s else Inl (External ''DID syntax''))"

definition fx_ParseRepoPath :: "string \<Rightarrow> error + string \<times> string" where
  "fx_ParseRepoPath p =
     (if CHR ''/'' \<in> set p
      then Inr (takeWhile (\<lambda>ch. ch \<noteq> CHR ''/'') p, tl (dropWhile (\<lambda>ch. ch \<noteq> CHR ''/'') p))
      else Inl (External ''repo path syntax''))"

record fx_repo =
  fx_tree :: "(string \<times> cid) list"
  fx_records :: "(cid \<times> bytes) list"

record fx_ident =
  fx_key :: "bytes option"

fun fx_less :: "string \<Rightarrow> string \<Rightarrow> bool" where
  "fx_less [] [] = False"
| "fx_less [] (y # ys) = True"
| "fx_less (x # xs) [] = False"
| "fx_less (x # xs) (y # ys) =
     ((of_char x :: nat) < of_char y \<or> (x = y \<and> fx_less xs ys))"

fun fx_insert :: "string \<Rightarrow> cid \<Rightarrow> (string \<times> cid) list \<Rightarrow> (string \<times> cid) list" where
  "fx_insert k v [] = [(k, v)]"
| "fx_insert k v ((k', v') # t) =
     (if k = k' then (k, v) # t
      else if fx_less k k' then (k, v) # (k', v') # t
      else (k', v') # fx_insert k v t)"

definition fx_InvertOp :: "(string \<times> cid) list \<Rightarrow> Operation \<Rightarrow> error + (string \<times> cid) list" where
  "fx_InvertOp t op =
     (case (op_Prev op, op_Value op) of
        (None, Some v) \<Rightarrow>
          if map_of t (op_Path op) = Some v
          then Inr (filter (\<lambda>kv. fst kv \<noteq> op_Path op) t)
          else Inl (External ''cannot invert create'')
      | (Some p, None) \<Rightarrow>
          if map_of t (op_Path op) = None then Inr (fx_insert (op_Path op) p t)
          else Inl (External ''cannot invert delete'')
      | (Some p, Some v) \<Rightarrow>
          if map_of t (op_Path op) = Some v then Inr (fx_insert (op_Path op) p t)
          else Inl (External ''cannot invert update'')
      | (None, None) \<Rightarrow> Inl (External ''empty op''))"

fun fx_insert_op :: "Operation \<Rightarrow> Operation list \<Rightarrow> Operation list" where
  "fx_insert_op x [] = [x]"
| "fx_insert_op x (y # ys) =
     (if fx_less (op_Path x) (op_Path y) then x # y # ys else y # fx_insert_op x ys)"

definition fx_NormalizeOps :: "Operation list \<Rightarrow> error + Operation list" where
  "fx_NormalizeOps ops =
     (if distinct (map op_Path ops) then Inr (foldr fx_insert_op ops [])
      else Inl (External ''two ops on one path''))"

definition fx_RootCID :: "(string \<times> cid) list \<Rightarrow> error + cid" where
  "fx_RootCID t = Inr (CidStr (concat (map (\<lambda>kv. fst kv @ ''='' @ str (snd kv) @ '';'') t)))"

definition fx_GetRecordCID :: "fx_repo \<Rightarrow> string \<Rightarrow> string \<Rightarrow> error + cid" where
  "fx_GetRecordCID r nsid rkey =
     (case map_of (fx_tree r) (nsid @ ''/'' @ rkey) of
        None \<Rightarrow> Inl (External ''record not found in tree'')
      | Some c \<Rightarrow> Inr c)"

definition fx_GetRecordBytes :: "fx_repo \<Rightarrow> string \<Rightarrow> string \<Rightarrow> error + bytes" where
  "fx_GetRecordBytes r nsid rkey =
     (case map_of (fx_tree r) (nsid @ ''/'' @ rkey) of
        None \<Rightarrow> Inl (External ''record not found in tree'')
      | Some c \<Rightarrow>
          (case map_of (fx_records r) c of
             None \<Rightarrow> Inl (External ''record block missing'')
           | Some b \<Rightarrow> Inr b))"

text \<open>
  The stand-in knows one account and one CAR file, the byte \<open>2\<close>: the commit of
  \<open>did:plc:alice\<close> at rev \<open>3k3aaaaaaaaaa\<close>, whose tree holds one post with the record CID
  \<open>rec2\<close>. The directory resolves that DID to the key \<open>[9]\<close>, and a signature is valid
  when it is the key.
\<close>

definition fx_repo2 :: fx_repo where
  "fx_repo2 =
     \<lparr>fx_tree = [(''app.bsky.feed.post/3k2a'', CidStr ''rec2'')],
      fx_records = [(CidStr ''rec2'', [7])]\<rparr>"

definition fx_commit2 :: Commit where
  "fx_commit2 =
     \<lparr>commit_DID = ''did:plc:alice'', commit_Rev = ''3k3aaaaaaaaaa'',
      commit_Data = CidStr ''app.bsky.feed.post/3k2a=rec2;'', commit_Sig = [9]\<rparr>"

definition fx_pkgs :: "(string, string, fx_repo, (string \<times> cid) list, fx_ident, bytes) pkgs" where
  "fx_pkgs =
     \<lparr>ParseDID = fx_ParseDID,
      DID_String = (\<lambda>d. d),
      ParseTID = fx_ParseTID,
      TID_String = (\<lambda>t. t),
      TID_Time = fx_TID_Time,
      ParseDatetime = (\<lambda>s. if s = [] then Inl (External ''datetime syntax'') else Inr s),
      ParseRepoPath = fx_ParseRepoPath,
      LoadRepoFromCAR =
        (\<lambda>b. if b = [2] then Inr (fx_commit2, fx_repo2) else Inl (External ''bad CAR'')),
      LoadCommitFromCAR = (\<lambda>b. if b = [2] then Inr fx_commit2 else Inl (External ''bad CAR'')),
      GetRecordCID = fx_GetRecordCID,
      GetRecordBytes = fx_GetRecordBytes,
      MST = fx_tree,
      Copy = (\<lambda>t. t),
      RootCID = fx_RootCID,
      NormalizeOps = fx_NormalizeOps,
      InvertOp = fx_InvertOp,
      PublicKey = (\<lambda>i. case fx_key i of None \<Rightarrow> Inl (External ''no key'') | Some k \<Rightarrow> Inr k),
      VerifySignature = (\<lambda>c k. if commit_Sig c = k then None else Some ErrInvalidSignature)\<rparr>"

definition fx_directory :: "string \<Rightarrow> error + fx_ident" where
  "fx_directory d =
     (if d = ''did:plc:alice'' then Inr \<lparr>fx_key = Some [9]\<rparr>
      else Inl (External ''DID not found''))"

definition fx_host :: Host where
  "fx_host = \<lparr>Hostname = ''pds.example''\<rparr>"

text \<open>
  Three \<open>#commit\<close> messages for that CAR file, each with one update op on the post and
  \<open>msg.PrevData\<close> the root of the tree that held \<open>rec1\<close>: \<open>fx_msg_update\<close> names
  \<open>rec1\<close> as \<open>Prev\<close>, \<open>fx_msg_wrong_prev\<close> names \<open>rec0\<close>, and \<open>fx_msg_legacy\<close> has no
  \<open>Prev\<close>. The time \<open>fx_now\<close> is some twenty seconds after the time of the rev.
\<close>

definition fx_msg :: "cid option \<Rightarrow> SyncSubscribeRepos_Commit" where
  "fx_msg prev =
     \<lparr>Blocks = [2],
      Ops = [\<lparr>Action = ''update'', Cid = Some (CidStr ''rec2''),
              Path = ''app.bsky.feed.post/3k2a'', Prev = prev\<rparr>],
      PrevData = Some (CidStr ''app.bsky.feed.post/3k2a=rec1;''),
      Rebase = False,
      Repo = ''did:plc:alice'',
      Rev = ''3k3aaaaaaaaaa'',
      Seq = 1,
      Time = ''2023-07-24T01:29:40Z'',
      TooBig = False\<rparr>"

definition fx_msg_update :: SyncSubscribeRepos_Commit where
  "fx_msg_update = fx_msg (Some (CidStr ''rec1''))"

definition fx_msg_wrong_prev :: SyncSubscribeRepos_Commit where
  "fx_msg_wrong_prev = fx_msg (Some (CidStr ''rec0''))"

definition fx_msg_legacy :: SyncSubscribeRepos_Commit where
  "fx_msg_legacy = fx_msg None"

definition fx_now :: int where
  "fx_now = 1690162200000000000"

section \<open>The user-lock table\<close>

text \<open>
  A \<open>userLock\<close> holds a mutex \<open>lk\<close> (here the boolean "locked") and the atomic 32-bit
  counter \<open>waiters\<close>. The map \<open>userLocks\<close> of the validator holds pointers to such
  structs, so the model has a heap: \<open>heap\<close> maps an address to the struct stored there,
  and \<open>heap_next\<close> is the next address \<open>&userLock{}\<close> allocates. The release function
  that \<open>lockUser\<close> returns keeps the pointer \<open>ulk\<close> it read from the map; it does not
  look the map up again.

  Calls run concurrently, each on a goroutine, here numbered by a natural number. The
  field \<open>calls\<close> records the calls in progress: a call of \<open>HandleCommit\<close> with its
  \<open>uid\<close>, the pointer \<open>ulk\<close> it got from the map, and whether \<open>ulk.lk.Lock()\<close> has
  returned; or a call of \<open>HandleSync\<close> with the DID of its message.
\<close>

record userLock =
  lk :: bool
  waiters :: "32 word"

datatype call =
    InHandleCommit "64 word" nat bool
  | InHandleSync string

record ('did, 'ident) relay_state =
  validator :: "('did, 'ident) Validator"
  heap :: "nat \<Rightarrow> userLock"
  heap_next :: nat
  calls :: "nat \<rightharpoonup> call"

text \<open>
  The first part of \<open>lockUser\<close>, run with the table mutex \<open>lklk\<close> held: look the user
  up, insert a fresh \<open>userLock\<close> when there is none, add one to \<open>waiters\<close>. It returns
  the pointer \<open>ulk\<close>.
\<close>

definition lockUser_enter ::
  "64 word \<Rightarrow> ('did, 'ident) relay_state \<Rightarrow> nat \<times> ('did, 'ident) relay_state" where
  "lockUser_enter uid s =
     (let (ulk, s1) =
        (case userLocks (validator s) uid of
           Some ulk \<Rightarrow> (ulk, s)
         | None \<Rightarrow>
             (let ulk = heap_next s in
              (ulk, s\<lparr>heap := (heap s)(ulk := \<lparr>lk = False, waiters = 0\<rparr>),
                      heap_next := Suc ulk,
                      validator := (validator s)
                        \<lparr>userLocks := (userLocks (validator s))(uid \<mapsto> ulk)\<rparr>\<rparr>)))
      in (ulk, s1\<lparr>heap := (heap s1)
                 (ulk := (heap s1 ulk)\<lparr>waiters := waiters (heap s1 ulk) + 1\<rparr>)\<rparr>))"

text \<open>
  The function \<open>lockUser\<close> returns, run with \<open>lklk\<close> held: unlock \<open>ulk.lk\<close>, add \<open>-1\<close>
  to \<open>waiters\<close>, and delete the entry of \<open>uid\<close> from the map when the new value is zero.
\<close>

definition lockUser_release ::
  "64 word \<Rightarrow> nat \<Rightarrow> ('did, 'ident) relay_state \<Rightarrow> ('did, 'ident) relay_state" where
  "lockUser_release uid ulk s =
     (let s1 = s\<lparr>heap := (heap s)(ulk := (heap s ulk)\<lparr>lk := False\<rparr>)\<rparr>;
          nv = waiters (heap s1 ulk) - 1;
          s2 = s1\<lparr>heap := (heap s1)(ulk := (heap s1 ulk)\<lparr>waiters := nv\<rparr>)\<rparr>
      in if nv = 0
         then s2\<lparr>validator := (validator s2)
                  \<lparr>userLocks := (userLocks (validator s2))(uid := None)\<rparr>\<rparr>
         else s2)"

text \<open>
  The steps of the calls. The mutex \<open>lklk\<close> makes the two sections above atomic, and
  \<open>ulk.lk.Lock()\<close> is atomic by itself, so a call of \<open>HandleCommit\<close> on goroutine \<open>t\<close>
  is three steps: \<open>CommitLockUser t uid\<close>, the first part of \<open>lockUser\<close> for
  \<open>account.UID\<close>; \<open>CommitAcquire t\<close>, the return of \<open>ulk.lk.Lock()\<close>, possible only
  while the mutex is free; and \<open>CommitReturn t\<close>, the body of \<open>HandleCommit\<close> followed by
  the deferred \<open>unlock()\<close>, on whatever path the body returns. \<open>HandleSync\<close> calls
  neither \<open>lockUser\<close> nor anything else that touches the table, so its call is the two
  steps \<open>SyncEnter\<close> and \<open>SyncReturn\<close>, which change only the record of calls in
  progress. A step that cannot happen in a state gives \<open>None\<close>.
\<close>

datatype event =
    CommitLockUser nat "64 word"
  | CommitAcquire nat
  | CommitReturn nat
  | SyncEnter nat string
  | SyncReturn nat

fun goroutine :: "event \<Rightarrow> nat" where
  "goroutine (CommitLockUser t uid) = t"
| "goroutine (CommitAcquire t) = t"
| "goroutine (CommitReturn t) = t"
| "goroutine (SyncEnter t did) = t"
| "goroutine (SyncReturn t) = t"

fun step :: "event \<Rightarrow> ('did, 'ident) relay_state \<Rightarrow> ('did, 'ident) relay_state option" where
  "step (CommitLockUser t uid) s =
     (case calls s t of
        Some c \<Rightarrow> None
      | None \<Rightarrow>
          (let (ulk, s') = lockUser_enter uid s
           in Some (s'\<lparr>calls := (calls s')(t \<mapsto> InHandleCommit uid ulk False)\<rparr>)))"
| "step (CommitAcquire t) s =
     (case calls s t of
        Some (InHandleCommit uid ulk False) \<Rightarrow>
          if lk (heap s ulk) then None
          else Some (s\<lparr>heap := (heap s)(ulk := (heap s ulk)\<lparr>lk := True\<rparr>),
                       calls := (calls s)(t \<mapsto> InHandleCommit uid ulk True)\<rparr>)
      | _ \<Rightarrow> None)"
| "step (CommitReturn t) s =
     (case calls s t of
        Some (InHandleCommit uid ulk True) \<Rightarrow>
          Some ((lockUser_release uid ulk s)\<lparr>calls := (calls s)(t := None)\<rparr>)
      | _ \<Rightarrow> None)"
| "step (SyncEnter t did) s =
     (case calls s t of
        Some c \<Rightarrow> None
      | None \<Rightarrow> Some (s\<lparr>calls := (calls s)(t \<mapsto> InHandleSync did)\<rparr>))"
| "step (SyncReturn t) s =
     (case calls s t of
        Some (InHandleSync did) \<Rightarrow> Some (s\<lparr>calls := (calls s)(t := None)\<rparr>)
      | _ \<Rightarrow> None)"

fun run :: "event list \<Rightarrow> ('did, 'ident) relay_state \<Rightarrow> ('did, 'ident) relay_state option" where
  "run [] s = Some s"
| "run (e # es) s = (case step e s of None \<Rightarrow> None | Some s' \<Rightarrow> run es s')"

text \<open>The state after \<open>NewValidator\<close>: an empty map, an empty heap, no call in progress.\<close>

definition initial_state ::
  "('did \<Rightarrow> error + 'ident) option \<Rightarrow> ('did, 'ident) relay_state" where
  "initial_state dir =
     \<lparr>validator = NewValidator dir,
      heap = (\<lambda>a. \<lparr>lk = False, waiters = 0\<rparr>),
      heap_next = 0,
      calls = Map.empty\<rparr>"

text \<open>
  \<open>HandleCommit\<close> run on goroutine \<open>t\<close> with no other step in between: take the lock of
  \<open>account.UID\<close>, compute the body, release. The result is \<open>None\<close> when the call cannot
  proceed alone (the goroutine is busy, or the lock is held by another call).
\<close>

definition HandleCommit ::
  "('did, 'tid, 'repo, 'mst, 'ident, 'key) pkgs \<Rightarrow> nat \<Rightarrow> int \<Rightarrow> Host \<Rightarrow> Account \<Rightarrow>
     SyncSubscribeRepos_Commit \<Rightarrow> 'tid option \<Rightarrow> cid option \<Rightarrow> ('did, 'ident) relay_state \<Rightarrow>
     (((error + cid) \<times> metric list) \<times> ('did, 'ident) relay_state) option" where
  "HandleCommit D t now host account commit prevRev prevData s =
     (let uid = UID account in
      case step (CommitLockUser t uid) s of
        None \<Rightarrow> None
      | Some s1 \<Rightarrow>
     (case step (CommitAcquire t) s1 of
        None \<Rightarrow> None
      | Some s2 \<Rightarrow>
     (let r = HandleCommit_body D (validator s2) now host commit prevRev prevData in
      case step (CommitReturn t) s2 of
        None \<Rightarrow> None
      | Some s3 \<Rightarrow> Some (r, s3))))"

text \<open>
  The goroutines that hold a pointer to the \<open>userLock\<close> at address \<open>a\<close> for the user
  \<open>uid\<close>: the calls of \<open>HandleCommit\<close> in progress for them.
\<close>

definition users :: "(nat \<rightharpoonup> call) \<Rightarrow> 64 word \<Rightarrow> nat \<Rightarrow> nat set" where
  "users cs uid a = {t. \<exists>h. cs t = Some (InHandleCommit uid a h)}"
text \<open>
  The invariant of the lock table, on the map \<open>tbl\<close>, the heap \<open>hp\<close>, the next free
  address \<open>nxt\<close> and the calls in progress \<open>cs\<close>. Goroutines are numbered below
  \<open>2 ^ 31\<close>, so that \<open>waiters\<close> never wraps around. Every entry of the map points to an
  allocated \<open>userLock\<close> that some call in progress holds a pointer to, and whose
  \<open>waiters\<close> is the number of those calls; every call of \<open>HandleCommit\<close> in progress
  holds the pointer the map has for its user; two users never share a \<open>userLock\<close>; a
  call that has acquired the mutex finds it locked, and is the only one to have acquired
  it.
\<close>

definition table_inv ::
  "(64 word \<rightharpoonup> nat) \<Rightarrow> (nat \<Rightarrow> userLock) \<Rightarrow> nat \<Rightarrow> (nat \<rightharpoonup> call) \<Rightarrow> bool" where
  "table_inv tbl hp nxt cs \<longleftrightarrow>
     dom cs \<subseteq> {..<2 ^ 31} \<and>
     (\<forall>uid a. tbl uid = Some a \<longrightarrow>
        a < nxt \<and> users cs uid a \<noteq> {} \<and> waiters (hp a) = of_nat (card (users cs uid a))) \<and>
     (\<forall>t uid a h. cs t = Some (InHandleCommit uid a h) \<longrightarrow> tbl uid = Some a) \<and>
     (\<forall>u u' a. tbl u = Some a \<longrightarrow> tbl u' = Some a \<longrightarrow> u = u') \<and>
     (\<forall>t uid a. cs t = Some (InHandleCommit uid a True) \<longrightarrow> lk (hp a)) \<and>
     (\<forall>t t' uid uid' a. cs t = Some (InHandleCommit uid a True) \<longrightarrow>
        cs t' = Some (InHandleCommit uid' a True) \<longrightarrow> t = t')"

definition lock_inv :: "('did, 'ident) relay_state \<Rightarrow> bool" where
  "lock_inv s = table_inv (userLocks (validator s)) (heap s) (heap_next s) (calls s)"

chapter \<open>Properties\<close>

section \<open>Properties of ParseCommitOps\<close>

lemma ParseCommitOps_loop_ok:
  "list_all op_invariant ops \<Longrightarrow>
     ParseCommitOps_loop out ops = Inr (out @ map to_Operation ops)"
proof (induction ops arbitrary: out)
  case Nil
  show ?case by simp
next
  case (Cons rop ops)
  from Cons.prems have inv: "op_invariant rop" and rest: "list_all op_invariant ops"
    by simp_all
  have step: "ParseCommitOps_loop out (rop # ops) = ParseCommitOps_loop (out @ [to_Operation rop]) ops"
    using inv by (auto simp: op_invariant_def to_Operation_def)
  show ?case
    unfolding step using Cons.IH [OF rest] by simp
qed

lemma ParseCommitOps_loop_bad:
  "\<not> list_all op_invariant ops \<Longrightarrow> \<exists>e. ParseCommitOps_loop out ops = Inl e"
proof (induction ops arbitrary: out)
  case Nil
  then show ?case by simp
next
  case (Cons rop ops)
  show ?case
  proof (cases "op_invariant rop")
    case True
    with Cons.prems have "\<not> list_all op_invariant ops" by simp
    from Cons.IH [OF this] obtain e where
      "ParseCommitOps_loop (out @ [to_Operation rop]) ops = Inl e" by blast
    moreover have "ParseCommitOps_loop out (rop # ops) =
        ParseCommitOps_loop (out @ [to_Operation rop]) ops"
      using True by (auto simp: op_invariant_def to_Operation_def)
    ultimately show ?thesis by simp
  next
    case False
    then show ?thesis by (auto simp: op_invariant_def)
  qed
qed

text \<open>
  C6. \<open>ParseCommitOps\<close> succeeds exactly when every op satisfies the invariant of its
  action (which includes that the action is create, delete or update); when it succeeds
  the output is the input mapped op by op, in order, to the operation with the same path,
  the \<open>cid\<close> as value and the same \<open>prev\<close>; otherwise it returns an error.
\<close>

theorem ParseCommitOps_iff_invariants:
  "((\<exists>out. ParseCommitOps ops = Inr out) \<longleftrightarrow> list_all op_invariant ops) \<and>
   (list_all op_invariant ops \<longrightarrow> ParseCommitOps ops = Inr (map to_Operation ops)) \<and>
   (\<not> list_all op_invariant ops \<longrightarrow> (\<exists>e. ParseCommitOps ops = Inl e))"
proof -
  have ok: "list_all op_invariant ops \<Longrightarrow> ParseCommitOps ops = Inr (map to_Operation ops)"
    using ParseCommitOps_loop_ok [of ops "[]"] by (simp add: ParseCommitOps_def)
  have bad: "\<not> list_all op_invariant ops \<Longrightarrow> \<exists>e. ParseCommitOps ops = Inl e"
    using ParseCommitOps_loop_bad [of ops "[]"] by (simp add: ParseCommitOps_def)
  show ?thesis using ok bad by (cases "list_all op_invariant ops") auto
qed

theorem ParseCommitOps_iff_invariants_witness:
  "list_all op_invariant
     [\<lparr>Action = ''create'', Cid = Some (CidStr ''c1''), Path = ''app.bsky.feed.post/a'', Prev = None\<rparr>,
      \<lparr>Action = ''delete'', Cid = None, Path = ''app.bsky.feed.post/b'', Prev = Some (CidStr ''p2'')\<rparr>,
      \<lparr>Action = ''update'', Cid = Some (CidStr ''c3''), Path = ''app.bsky.feed.post/c'',
        Prev = Some (CidStr ''p3'')\<rparr>] \<and>
   ParseCommitOps
     [\<lparr>Action = ''create'', Cid = Some (CidStr ''c1''), Path = ''app.bsky.feed.post/a'', Prev = None\<rparr>,
      \<lparr>Action = ''delete'', Cid = None, Path = ''app.bsky.feed.post/b'', Prev = Some (CidStr ''p2'')\<rparr>,
      \<lparr>Action = ''update'', Cid = Some (CidStr ''c3''), Path = ''app.bsky.feed.post/c'',
        Prev = Some (CidStr ''p3'')\<rparr>] =
   Inr [\<lparr>op_Path = ''app.bsky.feed.post/a'', op_Prev = None, op_Value = Some (CidStr ''c1'')\<rparr>,
        \<lparr>op_Path = ''app.bsky.feed.post/b'', op_Prev = Some (CidStr ''p2''), op_Value = None\<rparr>,
        \<lparr>op_Path = ''app.bsky.feed.post/c'', op_Prev = Some (CidStr ''p3''),
          op_Value = Some (CidStr ''c3'')\<rparr>] \<and>
   \<not> list_all op_invariant
     [\<lparr>Action = ''create'', Cid = Some (CidStr ''c1''), Path = ''app.bsky.feed.post/a'',
        Prev = Some (CidStr ''p1'')\<rparr>] \<and>
   (\<exists>e. ParseCommitOps
     [\<lparr>Action = ''create'', Cid = Some (CidStr ''c1''), Path = ''app.bsky.feed.post/a'',
        Prev = Some (CidStr ''p1'')\<rparr>] = Inl e)"
  using ParseCommitOps_iff_invariants
    [of "[\<lparr>Action = ''create'', Cid = Some (CidStr ''c1''), Path = ''app.bsky.feed.post/a'', Prev = None\<rparr>,
      \<lparr>Action = ''delete'', Cid = None, Path = ''app.bsky.feed.post/b'', Prev = Some (CidStr ''p2'')\<rparr>,
      \<lparr>Action = ''update'', Cid = Some (CidStr ''c3''), Path = ''app.bsky.feed.post/c'',
        Prev = Some (CidStr ''p3'')\<rparr>]"]
    ParseCommitOps_iff_invariants
    [of "[\<lparr>Action = ''create'', Cid = Some (CidStr ''c1''), Path = ''app.bsky.feed.post/a'',
        Prev = Some (CidStr ''p1'')\<rparr>]"]
  by (simp add: op_invariant_def to_Operation_def)

section \<open>Properties of the P-256 signatures\<close>

lemma length_big_endian: "length (big_endian k x) = k"
  by (induction k arbitrary: x) auto

lemma SetBytes_snoc: "SetBytes (bs @ [b]) = SetBytes bs * 256 + uint b"
  by (simp add: SetBytes_def)

lemma SetBytes_big_endian: "0 \<le> x \<Longrightarrow> SetBytes (big_endian k x) = x mod 256 ^ k"
proof (induction k arbitrary: x)
  case 0
  show ?case by (simp add: SetBytes_def)
next
  case (Suc k)
  have b: "uint (word_of_int (x mod 256) :: 8 word) = x mod 256"
    by (simp add: uint_word_of_int take_bit_eq_mod)
  have "0 \<le> x div 256" using Suc.prems by simp
  from Suc.IH [OF this] have "SetBytes (big_endian k (x div 256)) = (x div 256) mod 256 ^ k" .
  then have "SetBytes (big_endian (Suc k) x) = ((x div 256) mod 256 ^ k) * 256 + x mod 256"
    by (simp add: SetBytes_snoc b)
  also have "\<dots> = x mod 256 ^ Suc k"
    using zmod_zmult2_eq [of "256 ^ k" x 256] by (simp add: mult.commute)
  finally show ?case .
qed

lemma SetBytes_FillBytes:
  "0 \<le> x \<Longrightarrow> x < 256 ^ k \<Longrightarrow>
     \<exists>buf. FillBytes x k = Some buf \<and> length buf = k \<and> SetBytes buf = x"
  by (simp add: FillBytes_def length_big_endian SetBytes_big_endian)

lemma sigSToLowS_P256_low:
  "0 < s \<Longrightarrow> s < curveN_P256 \<Longrightarrow>
     sigSIsLowS_P256 (sigSToLowS_P256 s) \<and> 0 < sigSToLowS_P256 s \<and>
     sigSToLowS_P256 s < curveN_P256"
  by (simp add: sigSIsLowS_P256_def sigSToLowS_P256_def curveN_P256_def)

lemma curveN_P256_fits: "curveN_P256 < 256 ^ 32"
  by (simp add: curveN_P256_def)

text \<open>
  C3. For every content and every signature of 64 bytes, read as \<open>r\<close> (the first 32 bytes)
  and \<open>s\<close> (the last 32): when \<open>s\<close> is above \<open>n div 2\<close>, \<open>HashAndVerify\<close> returns an error,
  whatever \<open>ecdsa.Verify\<close> answers; and it returns \<open>nil\<close> exactly when the signature has 64
  bytes, \<open>ecdsa.Verify\<close> accepts \<open>(r, s)\<close> for the SHA-256 digest of the content, and
  \<open>s\<close> is at most \<open>n div 2\<close>. (\<open>n\<close> is odd, so \<open>s > n div 2\<close> is \<open>s > n/2\<close>.)
\<close>

theorem HashAndVerify_requires_lowS:
  "(length sig = 64 \<and> curveN_P256 div 2 < SetBytes (drop 32 sig) \<longrightarrow>
      HashAndVerify E k content sig = Some ErrInvalidSignature) \<and>
   (HashAndVerify E k content sig = None \<longleftrightarrow>
      length sig = 64 \<and>
      Verify E (pubP256 k) (Sum256 E content) (SetBytes (take 32 sig)) (SetBytes (drop 32 sig)) \<and>
      SetBytes (drop 32 sig) \<le> curveN_P256 div 2)"
  by (auto simp: HashAndVerify_def Let_def sigSIsLowS_P256_def)

theorem HashAndVerify_requires_lowS_witness:
  "length ([0, 0, 0, 0, 0, 0, 0, 0, 0, 0, 0, 0, 0, 0, 0, 0,
            0, 0, 0, 0, 0, 0, 0, 0, 0, 0, 0, 0, 0, 0, 0, 6,
            255, 255, 255, 255, 0, 0, 0, 0, 255, 255, 255, 255, 255, 255, 255, 255,
            188, 230, 250, 173, 167, 23, 158, 132, 243, 185, 202, 194, 252, 98, 35, 36] :: bytes) = 64 \<and>
   curveN_P256 div 2 < SetBytes (drop 32 ([0, 0, 0, 0, 0, 0, 0, 0, 0, 0, 0, 0, 0, 0, 0, 0,
            0, 0, 0, 0, 0, 0, 0, 0, 0, 0, 0, 0, 0, 0, 0, 6,
            255, 255, 255, 255, 0, 0, 0, 0, 255, 255, 255, 255, 255, 255, 255, 255,
            188, 230, 250, 173, 167, 23, 158, 132, 243, 185, 202, 194, 252, 98, 35, 36] :: bytes)) \<and>
   Verify fx_ecdsa 7 (Sum256 fx_ecdsa [1, 2, 3]) 6
     (SetBytes (drop 32 ([0, 0, 0, 0, 0, 0, 0, 0, 0, 0, 0, 0, 0, 0, 0, 0,
            0, 0, 0, 0, 0, 0, 0, 0, 0, 0, 0, 0, 0, 0, 0, 6,
            255, 255, 255, 255, 0, 0, 0, 0, 255, 255, 255, 255, 255, 255, 255, 255,
            188, 230, 250, 173, 167, 23, 158, 132, 243, 185, 202, 194, 252, 98, 35, 36] :: bytes))) \<and>
   HashAndVerify fx_ecdsa (PublicKeyP256 7) [1, 2, 3]
     [0, 0, 0, 0, 0, 0, 0, 0, 0, 0, 0, 0, 0, 0, 0, 0,
      0, 0, 0, 0, 0, 0, 0, 0, 0, 0, 0, 0, 0, 0, 0, 6,
      255, 255, 255, 255, 0, 0, 0, 0, 255, 255, 255, 255, 255, 255, 255, 255,
      188, 230, 250, 173, 167, 23, 158, 132, 243, 185, 202, 194, 252, 98, 35, 36] =
     Some ErrInvalidSignature"
  using HashAndVerify_requires_lowS [of
     "[0, 0, 0, 0, 0, 0, 0, 0, 0, 0, 0, 0, 0, 0, 0, 0,
      0, 0, 0, 0, 0, 0, 0, 0, 0, 0, 0, 0, 0, 0, 0, 6,
      255, 255, 255, 255, 0, 0, 0, 0, 255, 255, 255, 255, 255, 255, 255, 255,
      188, 230, 250, 173, 167, 23, 158, 132, 243, 185, 202, 194, 252, 98, 35, 36]"
     fx_ecdsa "PublicKeyP256 7" "[1, 2, 3]"]
  by (simp add: fx_ecdsa_def SetBytes_def curveN_P256_def)

text \<open>
  C9. Signing and verifying round-trip. Let \<open>ecdsa.Sign\<close> return \<open>(r, s)\<close> for the digest
  of the content, with \<open>r\<close> and \<open>s\<close> between \<open>1\<close> and \<open>n - 1\<close>, and let \<open>ecdsa.Verify\<close>
  accept, for the public key and that digest, both \<open>(r, s)\<close> and \<open>(r, n - s)\<close> (as ECDSA
  does for a signature made with the matching private key). Then \<open>HashAndSign\<close> returns a
  signature of 64 bytes and \<open>HashAndVerify\<close> with that public key accepts it on the same
  content.
\<close>

theorem HashAndSign_HashAndVerify_roundtrip:
  assumes sign: "Sign E rnd (privP256 priv) (Sum256 E content) = Inr (r, s)"
    and r: "0 < r" "r < curveN_P256"
    and s: "0 < s" "s < curveN_P256"
    and ok: "Verify E (pubP256 pub) (Sum256 E content) r s"
    and sym: "Verify E (pubP256 pub) (Sum256 E content) r (curveN_P256 - s)"
  shows "\<exists>sig. HashAndSign E rnd priv content = Inr sig \<and> length sig = 64 \<and>
           HashAndVerify E pub content sig = None"
proof -
  let ?s = "sigSToLowS_P256 s"
  from sigSToLowS_P256_low [OF s]
  have low: "sigSIsLowS_P256 ?s" and s': "0 < ?s" "?s < curveN_P256"
    by simp_all
  from r curveN_P256_fits have "0 \<le> r" "r < 256 ^ 32" by simp_all
  from SetBytes_FillBytes [OF this] obtain br where
    br: "FillBytes r 32 = Some br" "length br = 32" "SetBytes br = r" by blast
  from s' curveN_P256_fits have "0 \<le> ?s" "?s < 256 ^ 32" by simp_all
  from SetBytes_FillBytes [OF this] obtain bs where
    bs: "FillBytes ?s 32 = Some bs" "length bs = 32" "SetBytes bs = ?s" by blast
  have sig: "HashAndSign E rnd priv content = Inr (br @ bs)"
    by (simp add: HashAndSign_def sign br bs)
  have v: "Verify E (pubP256 pub) (Sum256 E content) r ?s"
    using ok sym by (simp add: sigSToLowS_P256_def)
  have "HashAndVerify E pub content (br @ bs) = None"
    using br bs v low by (simp add: HashAndVerify_def)
  with sig br bs show ?thesis by simp
qed

theorem HashAndSign_HashAndVerify_roundtrip_witness:
  "\<exists>sig. HashAndSign fx_ecdsa 5 (PrivateKeyP256 7) [1, 2, 3] = Inr sig \<and> length sig = 64 \<and>
     HashAndVerify fx_ecdsa (PublicKeyP256 7) [1, 2, 3] sig = None"
  using HashAndSign_HashAndVerify_roundtrip [of fx_ecdsa 5 "PrivateKeyP256 7" "[1, 2, 3]" 6
      "curveN_P256 - 66093" "PublicKeyP256 7"]
  by (simp add: fx_ecdsa_def SetBytes_def curveN_P256_def)

section \<open>Properties of the validator\<close>

subsection \<open>The counters of each piece\<close>

lemma VerifyCommitSignature_metrics:
  "VerifyCommitSignature D val commit hostname hw = (r, hw', ms) \<Longrightarrow>
     commitVerifyErrors h ''revf'' \<notin> set ms"
  by (auto simp: VerifyCommitSignature_def split: option.splits sum.splits if_splits)

lemma checkRecords_label:
  "checkRecords D repoFragment ops = Some (err, label) \<Longrightarrow>
     label \<in> {''opp'', ''rcid'', ''opc'', ''rec''}"
  by (induction ops) (auto split: option.splits sum.splits if_splits prod.splits)

lemma checkPrevData_metrics:
  "checkPrevData D hostname msg repoFragment c prevData hw m = (r, hw', ms) \<Longrightarrow>
     commitVerifyErrors h ''revf'' \<in> set ms \<Longrightarrow> commitVerifyErrors h ''revf'' \<in> set m"
  by (auto simp: checkPrevData_def split: option.splits sum.splits if_splits)

lemma VerifyCommitMessage_ops_metrics:
  assumes "VerifyCommitMessage_ops D hostname msg repoFragment prevData hw m = (r, hw', ms)"
    and "commitVerifyErrors h ''revf'' \<in> set ms"
  shows "commitVerifyErrors h ''revf'' \<in> set m"
proof (cases "checkRecords D repoFragment (Ops msg)")
  case (Some a)
  obtain err label where a: "a = (err, label)" by (cases a)
  from checkRecords_label [of D repoFragment "Ops msg" err label] Some a
  have "label \<noteq> ''revf''" by auto
  with assms Some a show ?thesis by (auto simp: VerifyCommitMessage_ops_def)
next
  case None
  with assms show ?thesis
    by (auto simp: VerifyCommitMessage_ops_def split: option.splits
        dest: checkPrevData_metrics)
qed

subsection \<open>The two checks of the rev\<close>

lemma Time_Sub_positive:
  "u < t \<Longrightarrow> 0 < Time_Sub t u \<and> (t - u \<le> maxDuration \<longrightarrow> Time_Sub t u = t - u)"
  by (simp add: Time_Sub_def maxDuration_def minDuration_def)

lemma envelope_prevRev_passed:
  assumes "ParseDID D (Repo msg) = Inr did" and "ParseTID D (Rev msg) = Inr rev'"
    and "TID_Time D p \<le> TID_Time D rev'"
  shows "VerifyCommitMessage_envelope D val now host msg (Some p) =
         VerifyCommitMessage_envelope D val now host msg None"
  using assms by (simp add: VerifyCommitMessage_envelope_def Time_Before_def)

lemma envelope_after_rev_checks:
  assumes did: "ParseDID D (Repo msg) = Inr did" and tid: "ParseTID D (Rev msg) = Inr rev'"
    and mono: "\<forall>p. prevRev = Some p \<longrightarrow> TID_Time D p \<le> TID_Time D rev'"
    and fut: "TID_Time D rev' \<le> now + maxRevFuture val"
    and res: "VerifyCommitMessage_envelope D val now host msg prevRev = (r, hw, ms)"
  shows "commitVerifyErrors h ''revf'' \<notin> set ms"
proof -
  have e: "VerifyCommitMessage_envelope D val now host msg prevRev =
           VerifyCommitMessage_envelope D val now host msg None"
  proof (cases prevRev)
    case None
    then show ?thesis by simp
  next
    case (Some p)
    with mono have "TID_Time D p \<le> TID_Time D rev'" by simp
    from envelope_prevRev_passed [OF did tid this] Some show ?thesis by simp
  qed
  from res [unfolded e] did tid fut show ?thesis
    by (auto simp: VerifyCommitMessage_envelope_def Time_After_def Time_Add_def Let_def
        split: sum.splits if_splits prod.splits option.splits
        dest: VerifyCommitSignature_metrics)
qed
text \<open>
  C4. Let the DID and the rev of the message parse and let \<open>prevRev\<close> be given. If the
  time of the rev is strictly before the time of \<open>prevRev\<close>, \<open>VerifyCommitMessage\<close>
  fails with a \<open>revOutOfOrderError\<close> whose \<open>dt\<close> is \<open>prevTime.Sub(curTime)\<close>, after
  incrementing the error counter with label \<open>revb\<close>; that \<open>dt\<close> is positive, and it is
  the difference \<open>prevTime - curTime\<close> whenever the difference fits a \<open>time.Duration\<close>.
  If the time of the rev is the time of \<open>prevRev\<close> or later (equal times included), the
  check passes: the function returns what it returns when no \<open>prevRev\<close> is given.
\<close>

theorem VerifyCommitMessage_rev_order:
  assumes "ParseDID D (Repo msg) = Inr did" and "ParseTID D (Rev msg) = Inr rev'"
  shows "(TID_Time D rev' < TID_Time D p \<longrightarrow>
            VerifyCommitMessage D val now host msg (Some p) prevData =
              (Inl (revOutOfOrderError (Time_Sub (TID_Time D p) (TID_Time D rev'))), False,
               [commitVerifyStarts, commitVerifyErrors (Hostname host) ''revb'']) \<and>
            0 < Time_Sub (TID_Time D p) (TID_Time D rev') \<and>
            (TID_Time D p - TID_Time D rev' \<le> maxDuration \<longrightarrow>
               Time_Sub (TID_Time D p) (TID_Time D rev') = TID_Time D p - TID_Time D rev')) \<and>
         (TID_Time D p \<le> TID_Time D rev' \<longrightarrow>
            VerifyCommitMessage D val now host msg (Some p) prevData =
            VerifyCommitMessage D val now host msg None prevData)"
proof -
  have before: "VerifyCommitMessage D val now host msg (Some p) prevData =
      (Inl (revOutOfOrderError (Time_Sub (TID_Time D p) (TID_Time D rev'))), False,
       [commitVerifyStarts, commitVerifyErrors (Hostname host) ''revb''])"
    if "TID_Time D rev' < TID_Time D p"
    using assms that
    by (simp add: VerifyCommitMessage_def VerifyCommitMessage_envelope_def Time_Before_def)
  have later: "VerifyCommitMessage D val now host msg (Some p) prevData =
      VerifyCommitMessage D val now host msg None prevData"
    if "TID_Time D p \<le> TID_Time D rev'"
    using envelope_prevRev_passed [OF assms that] by (simp add: VerifyCommitMessage_def)
  show ?thesis using before later Time_Sub_positive [of "TID_Time D rev'" "TID_Time D p"]
    by blast
qed

text \<open>
  C5. Let the DID and the rev of the message parse and let the rev not be before
  \<open>prevRev\<close>. Then \<open>VerifyCommitMessage\<close> fails at the future check, returning the
  validator's \<open>ErrRevTooFarFuture\<close> after incrementing the error counter with label
  \<open>revf\<close>, exactly when the time of the rev is strictly after \<open>now + maxRevFuture\<close>; when
  the time of the rev is at or before \<open>now + maxRevFuture\<close> the counter \<open>revf\<close> is not
  incremented, whatever the function returns. \<open>NewValidator\<close> sets \<open>maxRevFuture\<close> to
  one hour and \<open>ErrRevTooFarFuture\<close> to the error formatted from it.
\<close>

theorem VerifyCommitMessage_rev_future:
  assumes did: "ParseDID D (Repo msg) = Inr did" and tid: "ParseTID D (Rev msg) = Inr rev'"
    and mono: "\<forall>p. prevRev = Some p \<longrightarrow> TID_Time D p \<le> TID_Time D rev'"
  shows "(VerifyCommitMessage D val now host msg prevRev prevData =
            (Inl (ErrRevTooFarFuture val), False,
             [commitVerifyStarts, commitVerifyErrors (Hostname host) ''revf'']) \<longleftrightarrow>
          now + maxRevFuture val < TID_Time D rev') \<and>
         (TID_Time D rev' \<le> now + maxRevFuture val \<longrightarrow>
            commitVerifyErrors (Hostname host) ''revf'' \<notin>
              set (snd (snd (VerifyCommitMessage D val now host msg prevRev prevData)))) \<and>
         maxRevFuture (NewValidator dir :: ('did, 'ident) Validator) = 3600 * 1000000000 \<and>
         ErrRevTooFarFuture (NewValidator dir :: ('did, 'ident) Validator) =
           ErrorfD ''new rev is > '' (3600 * 1000000000) '' in the future''"
proof -
  let ?V = "VerifyCommitMessage D val now host msg prevRev prevData"
  let ?revf = "commitVerifyErrors (Hostname host) ''revf''"
  have nomono: "(case prevRev of None \<Rightarrow> None
      | Some p \<Rightarrow> (let curTime = TID_Time D rev'; prevTime = TID_Time D p in
          if Time_Before curTime prevTime then Some (Time_Sub prevTime curTime) else None)) = None"
    using mono by (cases prevRev) (simp_all add: Time_Before_def)
  have late: "?V = (Inl (ErrRevTooFarFuture val), False, [commitVerifyStarts, ?revf])"
    if "now + maxRevFuture val < TID_Time D rev'"
    using did tid that
    by (simp add: VerifyCommitMessage_def VerifyCommitMessage_envelope_def nomono
        Time_After_def Time_Add_def)
  have intime: "?revf \<notin> set (snd (snd ?V))" if fut: "TID_Time D rev' \<le> now + maxRevFuture val"
  proof -
    obtain r hw ms where e: "VerifyCommitMessage_envelope D val now host msg prevRev = (r, hw, ms)"
      by (cases "VerifyCommitMessage_envelope D val now host msg prevRev") auto
    from envelope_after_rev_checks [OF did tid mono fut e]
    have ms: "?revf \<notin> set ms" .
    show ?thesis
    proof (cases r)
      case (Inl err)
      with e ms show ?thesis by (simp add: VerifyCommitMessage_def)
    next
      case (Inr repoFragment)
      obtain r2 hw2 ms2 where
        o: "VerifyCommitMessage_ops D (Hostname host) msg repoFragment prevData hw ms = (r2, hw2, ms2)"
        by (cases "VerifyCommitMessage_ops D (Hostname host) msg repoFragment prevData hw ms") auto
      from VerifyCommitMessage_ops_metrics [OF o] ms have "?revf \<notin> set ms2" by blast
      with e Inr o show ?thesis by (simp add: VerifyCommitMessage_def)
    qed
  qed
  have only: "now + maxRevFuture val < TID_Time D rev'"
    if v: "?V = (Inl (ErrRevTooFarFuture val), False, [commitVerifyStarts, ?revf])"
  proof (rule ccontr)
    assume "\<not> now + maxRevFuture val < TID_Time D rev'"
    then have "TID_Time D rev' \<le> now + maxRevFuture val" by simp
    from intime [OF this] v show False by simp
  qed
  have new: "maxRevFuture (NewValidator dir :: ('did, 'ident) Validator) = 3600 * 1000000000 \<and>
      ErrRevTooFarFuture (NewValidator dir :: ('did, 'ident) Validator) =
        ErrorfD ''new rev is > '' (3600 * 1000000000) '' in the future''"
    by (simp add: NewValidator_def defaultMaxRevFuture_def time_Hour_def)
  from late only intime new show ?thesis by blast
qed

text \<open>
  C10. \<open>NewValidator\<close> sets \<open>AllowSignatureNotFound\<close>. When it is set, a directory is
  configured and the DID of the commit parses, every error returned by \<open>LookupDID\<close>,
  whatever the error, makes \<open>VerifyCommitSignature\<close> return \<open>nil\<close>: it increments the
  warning counter with label \<open>nok\<close>, sets \<open>*hasWarning\<close> to true when the pointer is not
  \<open>nil\<close>, and neither asks for the public key nor verifies the signature.
\<close>

theorem VerifyCommitSignature_lookup_error_passes:
  "AllowSignatureNotFound (NewValidator dir :: ('did, 'ident) Validator) \<and>
   (directory val = Some LookupDID \<and> ParseDID D (commit_DID commit) = Inr xdid \<and>
    LookupDID xdid = Inl err \<and> AllowSignatureNotFound val \<longrightarrow>
      VerifyCommitSignature D val commit hostname (Some hw) =
        (None, Some True, [commitVerifyWarnings hostname ''nok'']) \<and>
      VerifyCommitSignature D val commit hostname None =
        (None, None, [commitVerifyWarnings hostname ''nok'']) \<and>
      (\<forall>pk vs. VerifyCommitSignature (D\<lparr>PublicKey := pk, VerifySignature := vs\<rparr>) val commit
          hostname (Some hw) = VerifyCommitSignature D val commit hostname (Some hw)))"
  by (simp add: VerifyCommitSignature_def NewValidator_def)

subsection \<open>Legacy ops and the check of prevData\<close>

lemma legacyOp_None_iff:
  "legacyOp ops = None \<longleftrightarrow>
     (\<forall>op \<in> set ops. (Action op = ''delete'' \<or> Action op = ''update'') \<longrightarrow> Prev op \<noteq> None)"
  by (induction ops) auto

lemma legacyOp_label: "legacyOp ops = Some label \<Longrightarrow> label = ''del'' \<or> label = ''up''"
  by (induction ops) (auto split: if_splits)

lemma envelope_ignores_PrevData:
  "VerifyCommitMessage_envelope D val now host (msg\<lparr>PrevData := pd\<rparr>) prevRev =
   VerifyCommitMessage_envelope D val now host msg prevRev"
  by (simp add: VerifyCommitMessage_envelope_def
      cong: sum.case_cong option.case_cong prod.case_cong if_cong)

lemma checkPrevData_result_ignores_state:
  "fst (checkPrevData D hostname msg repoFragment c p hw m) =
   fst (checkPrevData D hostname msg repoFragment c p' hw' m')"
  by (simp add: checkPrevData_def split_def Let_def split: sum.split)

lemma ops_result_ignores_prevData:
  "fst (VerifyCommitMessage_ops D hostname msg repoFragment p hw m) =
   fst (VerifyCommitMessage_ops D hostname msg repoFragment p' hw m)"
  using checkPrevData_result_ignores_state [of D hostname msg repoFragment _ p hw m p' hw m]
  by (simp add: VerifyCommitMessage_ops_def split: option.split prod.split)

text \<open>
  C2. Let the message pass every check up to and including the record checks (the
  envelope checks return the repo fragment, and the loop over the records finds no
  failure), and let some delete or update op have no \<open>Prev\<close>. Then
  \<open>VerifyCommitMessage\<close> returns the repo fragment with no error, incrementing only the
  counter \<open>commitVerifyOkish\<close> with label \<open>del\<close> or \<open>up\<close>; and it returns the same
  whatever \<open>msg.PrevData\<close> and the argument \<open>prevData\<close> are, so the inversion check does
  not run.
\<close>

theorem VerifyCommitMessage_legacy_op_returns:
  assumes env: "VerifyCommitMessage_envelope D val now host msg prevRev = (Inr repoFragment, hw, m)"
    and recs: "checkRecords D repoFragment (Ops msg) = None"
    and legacy: "\<exists>op \<in> set (Ops msg).
        (Action op = ''delete'' \<or> Action op = ''update'') \<and> Prev op = None"
  shows "\<exists>label. (label = ''del'' \<or> label = ''up'') \<and>
           (\<forall>pd prevData.
              VerifyCommitMessage D val now host (msg\<lparr>PrevData := pd\<rparr>) prevRev prevData =
                (Inr repoFragment, hw, m @ [commitVerifyOkish (Hostname host) label])) \<and>
           (\<forall>prevData.
              VerifyCommitMessage D val now host msg prevRev prevData =
                (Inr repoFragment, hw, m @ [commitVerifyOkish (Hostname host) label]))"
proof -
  from legacy have "legacyOp (Ops msg) \<noteq> None"
    by (auto simp: legacyOp_None_iff)
  then obtain label where l: "legacyOp (Ops msg) = Some label" by blast
  from legacyOp_label [OF l] have lab: "label = ''del'' \<or> label = ''up''" .
  have a: "VerifyCommitMessage D val now host (msg\<lparr>PrevData := pd\<rparr>) prevRev prevData =
      (Inr repoFragment, hw, m @ [commitVerifyOkish (Hostname host) label])" for pd prevData
    using env recs l
    by (simp add: VerifyCommitMessage_def envelope_ignores_PrevData VerifyCommitMessage_ops_def)
  have b: "VerifyCommitMessage D val now host msg prevRev prevData =
      (Inr repoFragment, hw, m @ [commitVerifyOkish (Hostname host) label])" for prevData
    using env recs l by (simp add: VerifyCommitMessage_def VerifyCommitMessage_ops_def)
  from lab a b show ?thesis by blast
qed

text \<open>
  C1. The result of \<open>VerifyCommitMessage\<close> (the repo fragment or the error) is the same
  for every value of the argument \<open>prevData\<close>, so a mismatch with \<open>msg.PrevData\<close> never
  causes a failure by itself. Let the message pass every check up to the record checks,
  have no delete or update op without \<open>Prev\<close>, and carry \<open>msg.PrevData = c\<close>. If the
  argument \<open>prevData\<close> is given and differs from \<open>c\<close>, \<open>hasWarning\<close> is true at the end
  and the warning counter with label \<open>pr\<close> was incremented. If the ops parse and
  normalise, each normalised op inverts on the copy of the tree, and the inverted tree
  has a root CID: when that CID differs from \<open>c\<close> the function fails with the error
  \<open>inverted tree root didn't match prevData\<close> and last increments the error counter with
  label \<open>pd\<close>; when it equals \<open>c\<close> the function returns the repo fragment.
\<close>

theorem VerifyCommitMessage_prevData:
  assumes env: "VerifyCommitMessage_envelope D val now host msg prevRev = (Inr repoFragment, hw, m)"
    and recs: "checkRecords D repoFragment (Ops msg) = None"
    and nolegacy: "\<forall>op \<in> set (Ops msg).
        (Action op = ''delete'' \<or> Action op = ''update'') \<longrightarrow> Prev op \<noteq> None"
    and pd: "PrevData msg = Some c"
  shows "(\<forall>p p'. fst (VerifyCommitMessage D val now host msg prevRev p) =
                  fst (VerifyCommitMessage D val now host msg prevRev p')) \<and>
         (\<forall>p. p \<noteq> c \<longrightarrow>
            fst (snd (VerifyCommitMessage D val now host msg prevRev (Some p))) \<and>
            commitVerifyWarnings (Hostname host) ''pr'' \<in>
              set (snd (snd (VerifyCommitMessage D val now host msg prevRev (Some p))))) \<and>
         (\<forall>ops nops invTree computed.
            ParseCommitOps (Ops msg) = Inr ops \<and> NormalizeOps D ops = Inr nops \<and>
            invertOps D (Copy D (MST D repoFragment)) nops = Inr invTree \<and>
            RootCID D invTree = Inr computed \<longrightarrow>
              (computed \<noteq> c \<longrightarrow>
                 fst (VerifyCommitMessage D val now host msg prevRev prevData) =
                   Inl (Errorf ''inverted tree root didn't match prevData'') \<and>
                 last (snd (snd (VerifyCommitMessage D val now host msg prevRev prevData))) =
                   commitVerifyErrors (Hostname host) ''pd'') \<and>
              (computed = c \<longrightarrow>
                 fst (VerifyCommitMessage D val now host msg prevRev prevData) =
                   Inr repoFragment))"
proof -
  from nolegacy have l: "legacyOp (Ops msg) = None" by (simp add: legacyOp_None_iff)
  have v: "VerifyCommitMessage D val now host msg prevRev q =
      checkPrevData D (Hostname host) msg repoFragment c q hw m" for q
    using env recs l pd by (simp add: VerifyCommitMessage_def VerifyCommitMessage_ops_def)
  have indep: "fst (VerifyCommitMessage D val now host msg prevRev p) =
      fst (VerifyCommitMessage D val now host msg prevRev p')" for p p'
    unfolding v by (rule checkPrevData_result_ignores_state)
  have warn: "fst (snd (VerifyCommitMessage D val now host msg prevRev (Some p))) \<and>
      commitVerifyWarnings (Hostname host) ''pr'' \<in>
        set (snd (snd (VerifyCommitMessage D val now host msg prevRev (Some p))))"
    if "p \<noteq> c" for p
    unfolding v using that
    by (simp add: checkPrevData_def split: sum.splits)
  have inv: "(computed \<noteq> c \<longrightarrow>
        fst (VerifyCommitMessage D val now host msg prevRev prevData) =
          Inl (Errorf ''inverted tree root didn't match prevData'') \<and>
        last (snd (snd (VerifyCommitMessage D val now host msg prevRev prevData))) =
          commitVerifyErrors (Hostname host) ''pd'') \<and>
      (computed = c \<longrightarrow>
        fst (VerifyCommitMessage D val now host msg prevRev prevData) = Inr repoFragment)"
    if "ParseCommitOps (Ops msg) = Inr ops" "NormalizeOps D ops = Inr nops"
      "invertOps D (Copy D (MST D repoFragment)) nops = Inr invTree"
      "RootCID D invTree = Inr computed"
    for ops nops invTree computed
    unfolding v using that
    by (simp add: checkPrevData_def split: option.splits prod.splits)
  from indep warn inv show ?thesis by blast
qed

subsection \<open>The validator at concrete messages\<close>

lemmas fx_simps =
  fx_pkgs_def fx_directory_def fx_host_def fx_msg_def fx_msg_update_def fx_msg_wrong_prev_def
  fx_msg_legacy_def fx_now_def fx_repo2_def fx_commit2_def fx_ParseDID_def fx_ParseTID_def
  fx_TID_Time_def fx_b32_def fx_ParseRepoPath_def fx_GetRecordCID_def fx_GetRecordBytes_def
  fx_RootCID_def fx_NormalizeOps_def fx_InvertOp_def
  NewValidator_def defaultMaxRevFuture_def time_Hour_def
  Time_After_def Time_Add_def Time_Before_def Time_Sub_def maxDuration_def minDuration_def

lemma fx_envelope:
  "VerifyCommitMessage_envelope fx_pkgs (NewValidator (Some fx_directory)) fx_now fx_host
     (fx_msg prev) None = (Inr fx_repo2, False, [commitVerifyStarts])"
  by (simp add: VerifyCommitMessage_envelope_def VerifyCommitSignature_def fx_simps)

lemma fx_checkRecords: "checkRecords fx_pkgs fx_repo2 (Ops (fx_msg prev)) = None"
  by (simp add: fx_simps)

lemma fx_parse:
  "ParseDID fx_pkgs (Repo (fx_msg prev)) = Inr ''did:plc:alice'' \<and>
   ParseTID fx_pkgs (Rev (fx_msg prev)) = Inr ''3k3aaaaaaaaaa''"
  by (simp add: fx_simps)

lemma fx_times:
  "TID_Time fx_pkgs ''3k2aaaaaaaaaa'' = 1689062668966086000 \<and>
   TID_Time fx_pkgs ''3k3aaaaaaaaaa'' = 1690162180593862000 \<and>
   TID_Time fx_pkgs ''3k4aaaaaaaaaa'' = 1691261692221638000"
  by (simp add: fx_simps)

lemma fx_legacy_result:
  "VerifyCommitMessage fx_pkgs (NewValidator (Some fx_directory)) fx_now fx_host fx_msg_legacy
     None None =
     (Inr fx_repo2, False, [commitVerifyStarts, commitVerifyOkish ''pds.example'' ''up''])"
  using fx_envelope [of None] fx_checkRecords [of None]
  by (simp add: VerifyCommitMessage_def VerifyCommitMessage_ops_def fx_msg_legacy_def)
    (simp add: fx_msg_def fx_host_def)

theorem VerifyCommitMessage_rev_order_witness:
  "ParseDID fx_pkgs (Repo fx_msg_legacy) = Inr ''did:plc:alice'' \<and>
   ParseTID fx_pkgs (Rev fx_msg_legacy) = Inr ''3k3aaaaaaaaaa'' \<and>
   TID_Time fx_pkgs ''3k3aaaaaaaaaa'' < TID_Time fx_pkgs ''3k4aaaaaaaaaa'' \<and>
   VerifyCommitMessage fx_pkgs (NewValidator (Some fx_directory)) fx_now fx_host fx_msg_legacy
     (Some ''3k4aaaaaaaaaa'') None =
     (Inl (revOutOfOrderError 1099511627776000), False,
      [commitVerifyStarts, commitVerifyErrors ''pds.example'' ''revb'']) \<and>
   VerifyCommitMessage fx_pkgs (NewValidator (Some fx_directory)) fx_now fx_host fx_msg_legacy
     (Some ''3k3aaaaaaaaaa'') None =
     (Inr fx_repo2, False, [commitVerifyStarts, commitVerifyOkish ''pds.example'' ''up''])"
proof -
  from fx_parse [of None]
  have did: "ParseDID fx_pkgs (Repo fx_msg_legacy) = Inr ''did:plc:alice''"
    and tid: "ParseTID fx_pkgs (Rev fx_msg_legacy) = Inr ''3k3aaaaaaaaaa''"
    by (simp_all add: fx_msg_legacy_def)
  note later = VerifyCommitMessage_rev_order [OF did tid, of "''3k4aaaaaaaaaa''"
      "NewValidator (Some fx_directory)" fx_now fx_host None]
  note equal = VerifyCommitMessage_rev_order [OF did tid, of "''3k3aaaaaaaaaa''"
      "NewValidator (Some fx_directory)" fx_now fx_host None]
  from did tid later equal fx_times fx_legacy_result show ?thesis
    by (simp add: Time_Sub_def maxDuration_def minDuration_def fx_host_def)
qed

theorem VerifyCommitMessage_rev_future_witness:
  "ParseDID fx_pkgs (Repo fx_msg_legacy) = Inr ''did:plc:alice'' \<and>
   ParseTID fx_pkgs (Rev fx_msg_legacy) = Inr ''3k3aaaaaaaaaa'' \<and>
   TID_Time fx_pkgs ''3k2aaaaaaaaaa'' \<le> TID_Time fx_pkgs ''3k3aaaaaaaaaa'' \<and>
   1690000000000000000 + maxRevFuture (NewValidator (Some fx_directory)) <
     TID_Time fx_pkgs ''3k3aaaaaaaaaa'' \<and>
   VerifyCommitMessage fx_pkgs (NewValidator (Some fx_directory)) 1690000000000000000 fx_host
     fx_msg_legacy (Some ''3k2aaaaaaaaaa'') None =
     (Inl (ErrorfD ''new rev is > '' 3600000000000 '' in the future''), False,
      [commitVerifyStarts, commitVerifyErrors ''pds.example'' ''revf'']) \<and>
   TID_Time fx_pkgs ''3k3aaaaaaaaaa'' \<le> fx_now + maxRevFuture (NewValidator (Some fx_directory)) \<and>
   commitVerifyErrors ''pds.example'' ''revf'' \<notin>
     set (snd (snd (VerifyCommitMessage fx_pkgs (NewValidator (Some fx_directory)) fx_now fx_host
       fx_msg_legacy (Some ''3k2aaaaaaaaaa'') None)))"
proof -
  from fx_parse [of None]
  have did: "ParseDID fx_pkgs (Repo fx_msg_legacy) = Inr ''did:plc:alice''"
    and tid: "ParseTID fx_pkgs (Rev fx_msg_legacy) = Inr ''3k3aaaaaaaaaa''"
    by (simp_all add: fx_msg_legacy_def)
  have mono: "\<forall>p. Some ''3k2aaaaaaaaaa'' = Some p \<longrightarrow>
      TID_Time fx_pkgs p \<le> TID_Time fx_pkgs ''3k3aaaaaaaaaa''"
    using fx_times by simp
  note early = VerifyCommitMessage_rev_future [OF did tid mono,
      where val = "NewValidator (Some fx_directory)" and now = 1690000000000000000
        and host = fx_host and prevData = None and dir = "Some fx_directory"]
  note intime = VerifyCommitMessage_rev_future [OF did tid mono,
      where val = "NewValidator (Some fx_directory)" and now = fx_now
        and host = fx_host and prevData = None and dir = "Some fx_directory"]
  have max: "maxRevFuture (NewValidator (Some fx_directory)) = 3600000000000"
    "ErrRevTooFarFuture (NewValidator (Some fx_directory)) =
       ErrorfD ''new rev is > '' 3600000000000 '' in the future''"
    by (simp_all add: NewValidator_def defaultMaxRevFuture_def time_Hour_def)
  from did tid early intime fx_times max show ?thesis
    by (simp add: fx_now_def fx_host_def)
qed

theorem VerifyCommitSignature_lookup_error_passes_witness:
  "directory (NewValidator (Some fx_directory)) = Some fx_directory \<and>
   ParseDID fx_pkgs (commit_DID (fx_commit2\<lparr>commit_DID := ''did:plc:bob''\<rparr>)) =
     Inr ''did:plc:bob'' \<and>
   fx_directory ''did:plc:bob'' = Inl (External ''DID not found'') \<and>
   AllowSignatureNotFound (NewValidator (Some fx_directory)) \<and>
   VerifyCommitSignature fx_pkgs (NewValidator (Some fx_directory))
     (fx_commit2\<lparr>commit_DID := ''did:plc:bob''\<rparr>) ''pds.example'' (Some False) =
     (None, Some True, [commitVerifyWarnings ''pds.example'' ''nok''])"
  using VerifyCommitSignature_lookup_error_passes [of "Some fx_directory"
      "NewValidator (Some fx_directory)" fx_directory fx_pkgs
      "fx_commit2\<lparr>commit_DID := ''did:plc:bob''\<rparr>" "''did:plc:bob''"
      "External ''DID not found''" "''pds.example''" False]
  by (simp add: fx_pkgs_def fx_ParseDID_def fx_directory_def NewValidator_def)

theorem VerifyCommitMessage_legacy_op_returns_witness:
  "VerifyCommitMessage_envelope fx_pkgs (NewValidator (Some fx_directory)) fx_now fx_host
     fx_msg_legacy None = (Inr fx_repo2, False, [commitVerifyStarts]) \<and>
   checkRecords fx_pkgs fx_repo2 (Ops fx_msg_legacy) = None \<and>
   (\<exists>op \<in> set (Ops fx_msg_legacy).
      (Action op = ''delete'' \<or> Action op = ''update'') \<and> Prev op = None) \<and>
   PrevData fx_msg_legacy = Some (CidStr ''app.bsky.feed.post/3k2a=rec1;'') \<and>
   (\<exists>label. (label = ''del'' \<or> label = ''up'') \<and>
      (\<forall>prevData.
         VerifyCommitMessage fx_pkgs (NewValidator (Some fx_directory)) fx_now fx_host
           fx_msg_legacy None prevData =
           (Inr fx_repo2, False, [commitVerifyStarts, commitVerifyOkish ''pds.example'' label])))"
proof -
  have env: "VerifyCommitMessage_envelope fx_pkgs (NewValidator (Some fx_directory)) fx_now
      fx_host fx_msg_legacy None = (Inr fx_repo2, False, [commitVerifyStarts])"
    using fx_envelope [of None] by (simp add: fx_msg_legacy_def)
  have recs: "checkRecords fx_pkgs fx_repo2 (Ops fx_msg_legacy) = None"
    using fx_checkRecords [of None] by (simp add: fx_msg_legacy_def)
  have legacy: "\<exists>op \<in> set (Ops fx_msg_legacy).
      (Action op = ''delete'' \<or> Action op = ''update'') \<and> Prev op = None"
    by (simp add: fx_msg_legacy_def fx_msg_def)
  have pd: "PrevData fx_msg_legacy = Some (CidStr ''app.bsky.feed.post/3k2a=rec1;'')"
    by (simp add: fx_msg_legacy_def fx_msg_def)
  from VerifyCommitMessage_legacy_op_returns [OF env recs legacy]
  have "\<exists>label. (label = ''del'' \<or> label = ''up'') \<and>
      (\<forall>prevData.
         VerifyCommitMessage fx_pkgs (NewValidator (Some fx_directory)) fx_now fx_host
           fx_msg_legacy None prevData =
           (Inr fx_repo2, False, [commitVerifyStarts, commitVerifyOkish ''pds.example'' label]))"
    by (simp add: fx_host_def) blast
  with env recs legacy pd show ?thesis by blast
qed

theorem VerifyCommitMessage_prevData_witness:
  "VerifyCommitMessage_envelope fx_pkgs (NewValidator (Some fx_directory)) fx_now fx_host
     fx_msg_update None = (Inr fx_repo2, False, [commitVerifyStarts]) \<and>
   checkRecords fx_pkgs fx_repo2 (Ops fx_msg_update) = None \<and>
   PrevData fx_msg_update = Some (CidStr ''app.bsky.feed.post/3k2a=rec1;'') \<and>
   fst (VerifyCommitMessage fx_pkgs (NewValidator (Some fx_directory)) fx_now fx_host
     fx_msg_update None (Some (CidStr ''stale''))) = Inr fx_repo2 \<and>
   fst (snd (VerifyCommitMessage fx_pkgs (NewValidator (Some fx_directory)) fx_now fx_host
     fx_msg_update None (Some (CidStr ''stale'')))) \<and>
   fst (VerifyCommitMessage fx_pkgs (NewValidator (Some fx_directory)) fx_now fx_host
     fx_msg_wrong_prev None None) = Inl (Errorf ''inverted tree root didn't match prevData'')"
proof -
  let ?c = "CidStr ''app.bsky.feed.post/3k2a=rec1;''"
  have env: "VerifyCommitMessage_envelope fx_pkgs (NewValidator (Some fx_directory)) fx_now
      fx_host (fx_msg prev) None = (Inr fx_repo2, False, [commitVerifyStarts])" for prev
    by (rule fx_envelope)
  have recs: "checkRecords fx_pkgs fx_repo2 (Ops (fx_msg prev)) = None" for prev
    by (rule fx_checkRecords)
  have nolegacy: "\<forall>op \<in> set (Ops (fx_msg (Some p))).
      (Action op = ''delete'' \<or> Action op = ''update'') \<longrightarrow> Prev op \<noteq> None" for p
    by (simp add: fx_msg_def)
  have pd: "PrevData (fx_msg prev) = Some ?c" for prev
    by (simp add: fx_msg_def)
  have inv: "ParseCommitOps (Ops (fx_msg (Some p))) =
        Inr [\<lparr>op_Path = ''app.bsky.feed.post/3k2a'', op_Prev = Some p,
               op_Value = Some (CidStr ''rec2'')\<rparr>] \<and>
      NormalizeOps fx_pkgs [\<lparr>op_Path = ''app.bsky.feed.post/3k2a'', op_Prev = Some p,
               op_Value = Some (CidStr ''rec2'')\<rparr>] =
        Inr [\<lparr>op_Path = ''app.bsky.feed.post/3k2a'', op_Prev = Some p,
               op_Value = Some (CidStr ''rec2'')\<rparr>] \<and>
      invertOps fx_pkgs (Copy fx_pkgs (MST fx_pkgs fx_repo2))
          [\<lparr>op_Path = ''app.bsky.feed.post/3k2a'', op_Prev = Some p,
               op_Value = Some (CidStr ''rec2'')\<rparr>] =
        Inr [(''app.bsky.feed.post/3k2a'', p)] \<and>
      RootCID fx_pkgs [(''app.bsky.feed.post/3k2a'', p)] =
        Inr (CidStr (''app.bsky.feed.post/3k2a='' @ str p @ '';''))" for p
    by (simp add: ParseCommitOps_def fx_simps)
  note good = VerifyCommitMessage_prevData [OF env recs nolegacy pd,
      of "CidStr ''rec1''" "Some (CidStr ''stale'')"]
  note bad = VerifyCommitMessage_prevData [OF env recs nolegacy pd, of "CidStr ''rec0''" None]
  have g1: "fst (VerifyCommitMessage fx_pkgs (NewValidator (Some fx_directory)) fx_now fx_host
      (fx_msg (Some (CidStr ''rec1''))) None (Some (CidStr ''stale''))) = Inr fx_repo2"
    using good inv [of "CidStr ''rec1''"] by simp
  have g2: "fst (snd (VerifyCommitMessage fx_pkgs (NewValidator (Some fx_directory)) fx_now
      fx_host (fx_msg (Some (CidStr ''rec1''))) None (Some (CidStr ''stale''))))"
    using good by simp
  have b1: "fst (VerifyCommitMessage fx_pkgs (NewValidator (Some fx_directory)) fx_now fx_host
      (fx_msg (Some (CidStr ''rec0''))) None None) =
      Inl (Errorf ''inverted tree root didn't match prevData'')"
    using bad inv [of "CidStr ''rec0''"] by simp
  from env recs pd g1 g2 b1 show ?thesis
    by (simp add: fx_msg_update_def fx_msg_wrong_prev_def)
qed

section \<open>Properties of the user-lock table\<close>

subsection \<open>The goroutines that use a lock\<close>

lemma users_upd_commit:
  "users (cs(t \<mapsto> InHandleCommit uid a h)) uid' a' =
     (if uid' = uid \<and> a' = a then insert t (users cs uid a) else users cs uid' a' - {t})"
  by (auto simp: users_def)

lemma users_upd_none: "users (cs(t := None)) uid a = users cs uid a - {t}"
  by (auto simp: users_def)

lemma users_upd_sync: "users (cs(t \<mapsto> InHandleSync d)) uid a = users cs uid a - {t}"
  by (auto simp: users_def)

lemma users_notin_none: "cs t = None \<Longrightarrow> t \<notin> users cs uid a"
  by (simp add: users_def)

lemma users_notin_sync: "cs t = Some (InHandleSync d) \<Longrightarrow> t \<notin> users cs uid a"
  by (simp add: users_def)

lemma users_in_iff:
  "cs t = Some (InHandleCommit uid a h) \<Longrightarrow> t \<in> users cs uid' a' \<longleftrightarrow> uid' = uid \<and> a' = a"
  by (auto simp: users_def)

lemma users_subset: "users cs uid a \<subseteq> dom cs"
  by (auto simp: users_def)

lemma users_finite: "dom cs \<subseteq> {..<(n::nat)} \<Longrightarrow> finite (users cs uid a)"
  using users_subset [of cs uid a] by (meson finite_lessThan finite_subset)

lemma users_card: "dom cs \<subseteq> {..<(n::nat)} \<Longrightarrow> card (users cs uid a) \<le> n"
proof -
  assume d: "dom cs \<subseteq> {..<n}"
  then have "users cs uid a \<subseteq> {..<n}" using users_subset [of cs uid a] by blast
  then have "card (users cs uid a) \<le> card {..<n}" by (intro card_mono) simp_all
  then show ?thesis by simp
qed

lemma waiters_zero_iff:
  assumes "n \<le> 2 ^ 31"
  shows "(of_nat n :: 32 word) = 0 \<longleftrightarrow> n = 0"
proof
  assume "(of_nat n :: 32 word) = 0"
  then have "2 ^ 32 dvd n" by (simp add: word_of_nat_eq_0_iff)
  moreover have "n < 2 ^ 32" using assms by simp
  ultimately show "n = 0" by (meson dvd_imp_le not_le not_gr_zero)
next
  assume "n = 0" then show "(of_nat n :: 32 word) = 0" by simp
qed

lemma waiters_pred: "0 < n \<Longrightarrow> (of_nat n :: 32 word) - 1 = of_nat (n - 1)"
  by (cases n) simp_all

subsection \<open>Each step keeps the invariant of the table\<close>

lemma table_invI:
  assumes "dom cs \<subseteq> {..<2 ^ 31}"
    and "\<And>uid a. tbl uid = Some a \<Longrightarrow>
          a < nxt \<and> users cs uid a \<noteq> {} \<and> waiters (hp a) = of_nat (card (users cs uid a))"
    and "\<And>t uid a h. cs t = Some (InHandleCommit uid a h) \<Longrightarrow> tbl uid = Some a"
    and "\<And>u u' a. tbl u = Some a \<Longrightarrow> tbl u' = Some a \<Longrightarrow> u = u'"
    and "\<And>t uid a. cs t = Some (InHandleCommit uid a True) \<Longrightarrow> lk (hp a)"
    and "\<And>t t' uid uid' a. cs t = Some (InHandleCommit uid a True) \<Longrightarrow>
          cs t' = Some (InHandleCommit uid' a True) \<Longrightarrow> t = t'"
  shows "table_inv tbl hp nxt cs"
  unfolding table_inv_def using assms by blast

lemma table_inv_dom: "table_inv tbl hp nxt cs \<Longrightarrow> dom cs \<subseteq> {..<2 ^ 31}"
  by (simp add: table_inv_def)

lemma table_inv_entry:
  "table_inv tbl hp nxt cs \<Longrightarrow> tbl uid = Some a \<Longrightarrow>
     a < nxt \<and> users cs uid a \<noteq> {} \<and> waiters (hp a) = of_nat (card (users cs uid a))"
  by (simp add: table_inv_def)

lemma table_inv_held:
  "table_inv tbl hp nxt cs \<Longrightarrow> cs t = Some (InHandleCommit uid a h) \<Longrightarrow> tbl uid = Some a"
  unfolding table_inv_def by blast

lemma table_inv_inj:
  "table_inv tbl hp nxt cs \<Longrightarrow> tbl u = Some a \<Longrightarrow> tbl u' = Some a \<Longrightarrow> u = u'"
  unfolding table_inv_def by blast

lemma table_inv_locked:
  "table_inv tbl hp nxt cs \<Longrightarrow> cs t = Some (InHandleCommit uid a True) \<Longrightarrow> lk (hp a)"
  unfolding table_inv_def by blast

lemma table_inv_unique:
  "table_inv tbl hp nxt cs \<Longrightarrow> cs t = Some (InHandleCommit uid a True) \<Longrightarrow>
     cs t' = Some (InHandleCommit uid' a True) \<Longrightarrow> t = t'"
  unfolding table_inv_def by blast

lemma table_inv_sync_enter:
  assumes "table_inv tbl hp nxt cs" and "cs t = None" and "t < 2 ^ 31"
  shows "table_inv tbl hp nxt (cs(t \<mapsto> InHandleSync d))"
  using assms
  by (auto simp: table_inv_def users_upd_sync users_notin_none split: if_splits)

lemma table_inv_sync_return:
  assumes "table_inv tbl hp nxt cs" and "cs t = Some (InHandleSync d)"
  shows "table_inv tbl hp nxt (cs(t := None))"
  using assms
  by (auto simp: table_inv_def users_upd_none users_notin_sync split: if_splits)

lemma table_inv_enter_old:
  assumes inv: "table_inv tbl hp nxt cs" and free: "cs t = None" and t: "t < 2 ^ 31"
    and old: "tbl uid = Some a"
  shows "table_inv tbl (hp(a := (hp a)\<lparr>waiters := waiters (hp a) + 1\<rparr>)) nxt
           (cs(t \<mapsto> InHandleCommit uid a False))"
proof -
  from inv have dom: "dom cs \<subseteq> {..<2 ^ 31}" by (simp add: table_inv_def)
  have fin: "finite (users cs u b)" for u b using users_finite [OF dom] .
  have notin: "t \<notin> users cs u b" for u b using free by (rule users_notin_none)
  show ?thesis
    using inv free t old fin notin
    by (auto simp: table_inv_def users_upd_commit split: if_splits)
qed

lemma table_inv_enter_new:
  assumes inv: "table_inv tbl hp nxt cs" and free: "cs t = None" and t: "t < 2 ^ 31"
    and new: "tbl uid = None"
  shows "table_inv (tbl(uid \<mapsto> nxt)) (hp(nxt := \<lparr>lk = False, waiters = 0 + 1\<rparr>)) (Suc nxt)
           (cs(t \<mapsto> InHandleCommit uid nxt False))"
proof (rule table_invI)
  let ?cs = "cs(t \<mapsto> InHandleCommit uid nxt False)"
  have notin: "t \<notin> users cs u b" for u b using free by (rule users_notin_none)
  have nouid: "cs x \<noteq> Some (InHandleCommit uid b h)" for x b h
    using table_inv_held [OF inv, of x uid b h] new by auto
  have fresh: "users cs uid nxt = {}"
    using nouid by (auto simp: users_def)
  show "dom ?cs \<subseteq> {..<2 ^ 31}"
    using table_inv_dom [OF inv] t by auto
  show "a < Suc nxt \<and> users ?cs u a \<noteq> {} \<and>
      waiters ((hp(nxt := \<lparr>lk = False, waiters = 0 + 1\<rparr>)) a) = of_nat (card (users ?cs u a))"
    if "(tbl(uid \<mapsto> nxt)) u = Some a" for u a
  proof (cases "u = uid")
    case True
    with that have "a = nxt" by simp
    with True fresh show ?thesis by (simp add: users_upd_commit)
  next
    case False
    with that have old: "tbl u = Some a" by simp
    from table_inv_entry [OF inv old] have "a < nxt" "users cs u a \<noteq> {}"
      "waiters (hp a) = of_nat (card (users cs u a))" by simp_all
    with False notin [of u a] show ?thesis by (simp add: users_upd_commit)
  qed
  show "(tbl(uid \<mapsto> nxt)) u = Some a" if "?cs x = Some (InHandleCommit u a h)" for x u a h
  proof (cases "x = t")
    case True
    with that show ?thesis by simp
  next
    case False
    with that have c: "cs x = Some (InHandleCommit u a h)" by simp
    with nouid have "u \<noteq> uid" by blast
    with table_inv_held [OF inv c] show ?thesis by simp
  qed
  show "u = u'" if "(tbl(uid \<mapsto> nxt)) u = Some a" "(tbl(uid \<mapsto> nxt)) u' = Some a" for u u' a
  proof -
    have lt: "b < nxt" if "tbl v = Some b" for v b
      using table_inv_entry [OF inv that] by simp
    from that lt [of u a] lt [of u' a] table_inv_inj [OF inv, of u a u'] show ?thesis
      by (auto split: if_splits)
  qed
  show "lk ((hp(nxt := \<lparr>lk = False, waiters = 0 + 1\<rparr>)) a)"
    if "?cs x = Some (InHandleCommit u a True)" for x u a
  proof -
    from that have c: "cs x = Some (InHandleCommit u a True)" by (auto split: if_splits)
    from table_inv_entry [OF inv table_inv_held [OF inv c]] have "a \<noteq> nxt" by simp
    with table_inv_locked [OF inv c] show ?thesis by simp
  qed
  show "x = x'"
    if "?cs x = Some (InHandleCommit u a True)" "?cs x' = Some (InHandleCommit u' a True)"
    for x x' u u' a
  proof -
    from that have "cs x = Some (InHandleCommit u a True)" "cs x' = Some (InHandleCommit u' a True)"
      by (auto split: if_splits)
    then show ?thesis by (rule table_inv_unique [OF inv])
  qed
qed

lemma table_inv_acquire:
  assumes inv: "table_inv tbl hp nxt cs" and c: "cs t = Some (InHandleCommit uid a False)"
    and unlocked: "\<not> lk (hp a)"
  shows "table_inv tbl (hp(a := (hp a)\<lparr>lk := True\<rparr>)) nxt (cs(t \<mapsto> InHandleCommit uid a True))"
proof (rule table_invI)
  let ?cs = "cs(t \<mapsto> InHandleCommit uid a True)"
  have users: "users ?cs u b = users cs u b" for u b
    using c by (auto simp: users_def)
  have nobody: "cs x \<noteq> Some (InHandleCommit u a True)" for x u
    using table_inv_locked [OF inv, of x u a] unlocked by blast
  show "dom ?cs \<subseteq> {..<2 ^ 31}"
    using table_inv_dom [OF inv] c by auto
  show "b < nxt \<and> users ?cs u b \<noteq> {} \<and>
      waiters ((hp(a := (hp a)\<lparr>lk := True\<rparr>)) b) = of_nat (card (users ?cs u b))"
    if "tbl u = Some b" for u b
    using table_inv_entry [OF inv that] by (auto simp: users)
  show "tbl u = Some b" if "?cs x = Some (InHandleCommit u b h)" for x u b h
  proof (cases "x = t")
    case True
    with that table_inv_held [OF inv c] show ?thesis by simp
  next
    case False
    with that table_inv_held [OF inv, of x u b h] show ?thesis by simp
  qed
  show "u = u'" if "tbl u = Some b" "tbl u' = Some b" for u u' b
    using that by (rule table_inv_inj [OF inv])
  show "lk ((hp(a := (hp a)\<lparr>lk := True\<rparr>)) b)" if "?cs x = Some (InHandleCommit u b True)" for x u b
  proof (cases "b = a")
    case True
    then show ?thesis by simp
  next
    case False
    with that have "cs x = Some (InHandleCommit u b True)" by (auto split: if_splits)
    from table_inv_locked [OF inv this] False show ?thesis by simp
  qed
  show "x = x'"
    if "?cs x = Some (InHandleCommit u b True)" "?cs x' = Some (InHandleCommit u' b True)"
    for x x' u u' b
  proof (cases "b = a")
    case True
    with that nobody show ?thesis by (auto split: if_splits)
  next
    case False
    with that have "cs x = Some (InHandleCommit u b True)" "cs x' = Some (InHandleCommit u' b True)"
      by (auto split: if_splits)
    then show ?thesis by (rule table_inv_unique [OF inv])
  qed
qed

lemma table_inv_release:
  assumes inv: "table_inv tbl hp nxt cs" and c: "cs t = Some (InHandleCommit uid a True)"
  shows "table_inv
           (if waiters (hp a) - 1 = 0 then tbl(uid := None) else tbl)
           (hp(a := (hp a)\<lparr>lk := False, waiters := waiters (hp a) - 1\<rparr>)) nxt (cs(t := None))"
proof -
  let ?cs = "cs(t := None)"
  let ?hp = "hp(a := (hp a)\<lparr>lk := False, waiters := waiters (hp a) - 1\<rparr>)"
  let ?tbl = "if waiters (hp a) - 1 = 0 then tbl(uid := None) else tbl"
  have entry: "tbl uid = Some a" using table_inv_held [OF inv c] .
  have dom: "dom cs \<subseteq> {..<2 ^ 31}" using table_inv_dom [OF inv] .
  have fin: "finite (users cs u b)" for u b using users_finite [OF dom] .
  have tin: "t \<in> users cs uid a" using c by (auto simp: users_def)
  have tother: "users cs u b - {t} = users cs u b" if "u \<noteq> uid \<or> b \<noteq> a" for u b
    using c that by (auto simp: users_def)
  from table_inv_entry [OF inv entry]
  have w: "waiters (hp a) = of_nat (card (users cs uid a))" by simp
  have pos: "0 < card (users cs uid a)" using tin fin [of uid a] by (auto simp: card_gt_0_iff)
  have card': "card (users ?cs uid a) = card (users cs uid a) - 1"
    using tin fin [of uid a] by (simp add: users_upd_none)
  have w': "waiters (hp a) - 1 = of_nat (card (users ?cs uid a))"
    using w waiters_pred [OF pos] card' by simp
  have le: "card (users ?cs uid a) \<le> 2 ^ 31"
    using users_card [OF dom, of uid a] card' by simp
  have zero: "waiters (hp a) - 1 = 0 \<longleftrightarrow> users ?cs uid a = {}"
    using w' waiters_zero_iff [OF le] fin [of uid a] by (simp add: users_upd_none)
  have sub: "?tbl u = Some b \<Longrightarrow> tbl u = Some b" for u b
    by (auto split: if_splits)
  show ?thesis
  proof (rule table_invI)
    show "dom ?cs \<subseteq> {..<2 ^ 31}" using dom by auto
    show "b < nxt \<and> users ?cs u b \<noteq> {} \<and> waiters (?hp b) = of_nat (card (users ?cs u b))"
      if "?tbl u = Some b" for u b
    proof (cases "u = uid")
      case True
      with sub [OF that] entry have b: "b = a" by simp
      from that True have "waiters (hp a) - 1 \<noteq> 0" by (auto split: if_splits)
      with zero have "users ?cs uid a \<noteq> {}" by simp
      with table_inv_entry [OF inv entry] w' True b show ?thesis by simp
    next
      case False
      from sub [OF that] have old: "tbl u = Some b" .
      with False table_inv_inj [OF inv, of u b uid] entry have ne: "b \<noteq> a" by blast
      from table_inv_entry [OF inv old] ne tother [of u b] False show ?thesis
        by (simp add: users_upd_none)
    qed
    show "?tbl u = Some b" if "?cs x = Some (InHandleCommit u b h)" for x u b h
    proof -
      from that have x: "x \<noteq> t" and cx: "cs x = Some (InHandleCommit u b h)"
        by (auto split: if_splits)
      from table_inv_held [OF inv cx] have old: "tbl u = Some b" .
      show ?thesis
      proof (cases "u = uid")
        case True
        with old entry have "b = a" by simp
        with True cx x have "x \<in> users ?cs uid a" by (auto simp: users_def)
        with zero have "waiters (hp a) - 1 \<noteq> 0" by auto
        with old show ?thesis by simp
      next
        case False
        with old show ?thesis by simp
      qed
    qed
    show "u = u'" if "?tbl u = Some b" "?tbl u' = Some b" for u u' b
      using sub [OF that(1)] sub [OF that(2)] by (rule table_inv_inj [OF inv])
    show "lk (?hp b)" if "?cs x = Some (InHandleCommit u b True)" for x u b
    proof -
      from that have x: "x \<noteq> t" and cx: "cs x = Some (InHandleCommit u b True)"
        by (auto split: if_splits)
      from table_inv_unique [OF inv cx, of t uid] c x have "b \<noteq> a" by auto
      with table_inv_locked [OF inv cx] show ?thesis by simp
    qed
    show "x = x'"
      if "?cs x = Some (InHandleCommit u b True)" "?cs x' = Some (InHandleCommit u' b True)"
      for x x' u u' b
    proof -
      from that have "cs x = Some (InHandleCommit u b True)"
        "cs x' = Some (InHandleCommit u' b True)"
        by (auto split: if_splits)
      then show ?thesis by (rule table_inv_unique [OF inv])
    qed
  qed
qed

subsection \<open>The invariant holds in every reachable state\<close>

lemma lock_inv_initial: "lock_inv (initial_state dir)"
  by (simp add: lock_inv_def table_inv_def initial_state_def NewValidator_def users_def)

lemma lock_inv_step:
  assumes inv: "lock_inv s" and st: "step e s = Some s'" and t: "goroutine e < 2 ^ 31"
  shows "lock_inv s'"
proof (cases e)
  case (CommitLockUser t uid)
  with st have free: "calls s t = None" by (auto split: option.splits)
  from CommitLockUser t have bound: "t < 2 ^ 31" by simp
  show ?thesis
  proof (cases "userLocks (validator s) uid")
    case None
    from table_inv_enter_new [OF inv [unfolded lock_inv_def] free bound None]
    show ?thesis using st CommitLockUser free None
      by (auto simp: lock_inv_def lockUser_enter_def Let_def)
  next
    case (Some a)
    from table_inv_enter_old [OF inv [unfolded lock_inv_def] free bound Some]
    show ?thesis using st CommitLockUser free Some
      by (auto simp: lock_inv_def lockUser_enter_def Let_def)
  qed
next
  case (CommitAcquire t)
  with st obtain uid a where c: "calls s t = Some (InHandleCommit uid a False)"
    and unlocked: "\<not> lk (heap s a)"
    by (auto split: option.splits call.splits bool.splits if_splits)
  from table_inv_acquire [OF inv [unfolded lock_inv_def] c unlocked]
  show ?thesis using st CommitAcquire c unlocked by (auto simp: lock_inv_def)
next
  case (CommitReturn t)
  with st obtain uid a where c: "calls s t = Some (InHandleCommit uid a True)"
    by (auto split: option.splits call.splits bool.splits if_splits)
  from table_inv_release [OF inv [unfolded lock_inv_def] c]
  show ?thesis using st CommitReturn c
    by (auto simp: lock_inv_def lockUser_release_def Let_def split: if_splits)
next
  case (SyncEnter t d)
  with st have free: "calls s t = None" by (auto split: option.splits)
  from SyncEnter t have bound: "t < 2 ^ 31" by simp
  from table_inv_sync_enter [OF inv [unfolded lock_inv_def] free bound]
  show ?thesis using st SyncEnter free by (auto simp: lock_inv_def)
next
  case (SyncReturn t)
  with st obtain d where c: "calls s t = Some (InHandleSync d)"
    by (auto split: option.splits call.splits)
  from table_inv_sync_return [OF inv [unfolded lock_inv_def] c]
  show ?thesis using st SyncReturn c by (auto simp: lock_inv_def)
qed

lemma lock_inv_run:
  "lock_inv s \<Longrightarrow> run evs s = Some s' \<Longrightarrow> \<forall>e \<in> set evs. goroutine e < 2 ^ 31 \<Longrightarrow> lock_inv s'"
proof (induction evs arbitrary: s)
  case Nil
  then show ?case by simp
next
  case (Cons e evs)
  from Cons.prems(2) obtain s1 where e: "step e s = Some s1" and r: "run evs s1 = Some s'"
    by (auto split: option.splits)
  from Cons.prems(3) have "goroutine e < 2 ^ 31" by simp
  from lock_inv_step [OF Cons.prems(1) e this] have "lock_inv s1" .
  from Cons.IH [OF this r] Cons.prems(3) show ?case by simp
qed

lemma lock_inv_reachable:
  "run evs (initial_state dir) = Some s \<Longrightarrow> \<forall>e \<in> set evs. goroutine e < 2 ^ 31 \<Longrightarrow> lock_inv s"
  using lock_inv_run [OF lock_inv_initial] by blast

lemma HandleCommit_run:
  "HandleCommit D t now host account commit prevRev prevData s = Some (r, s') \<Longrightarrow>
     run [CommitLockUser t (UID account), CommitAcquire t, CommitReturn t] s = Some s'"
  by (auto simp: HandleCommit_def Let_def split: option.splits)

text \<open>
  C7. Start from the validator \<open>NewValidator\<close> makes and run any sequence of steps of
  calls of \<open>HandleCommit\<close> and \<open>HandleSync\<close>, interleaved in any way, on goroutines
  numbered below \<open>2 ^ 31\<close>. In the state reached, the users with an entry in
  \<open>userLocks\<close> are exactly the users with a call of \<open>HandleCommit\<close> in progress (a
  \<open>lockUser\<close> whose release function has not run yet); so the entry of a user is gone
  once the last of its calls has released, and when no call of \<open>HandleCommit\<close> is in
  progress the map is empty.
\<close>

theorem userLocks_clean:
  assumes "run evs (initial_state dir) = Some s"
    and "\<forall>e \<in> set evs. goroutine e < 2 ^ 31"
  shows "dom (userLocks (validator s)) =
           {uid. \<exists>t a h. calls s t = Some (InHandleCommit uid a h)} \<and>
         ((\<forall>t uid a h. calls s t \<noteq> Some (InHandleCommit uid a h)) \<longrightarrow>
            userLocks (validator s) = Map.empty)"
proof -
  from lock_inv_reachable [OF assms]
  have inv: "table_inv (userLocks (validator s)) (heap s) (heap_next s) (calls s)"
    by (simp add: lock_inv_def)
  have d: "dom (userLocks (validator s)) =
      {uid. \<exists>t a h. calls s t = Some (InHandleCommit uid a h)}"
  proof (intro set_eqI iffI)
    fix uid assume "uid \<in> dom (userLocks (validator s))"
    then obtain a where "userLocks (validator s) uid = Some a" by blast
    from table_inv_entry [OF inv this] have "users (calls s) uid a \<noteq> {}" by simp
    then show "uid \<in> {uid. \<exists>t a h. calls s t = Some (InHandleCommit uid a h)}"
      by (auto simp: users_def)
  next
    fix uid assume "uid \<in> {uid. \<exists>t a h. calls s t = Some (InHandleCommit uid a h)}"
    then obtain t a h where "calls s t = Some (InHandleCommit uid a h)" by blast
    from table_inv_held [OF inv this] show "uid \<in> dom (userLocks (validator s))" by blast
  qed
  have "userLocks (validator s) = Map.empty"
    if "\<forall>t uid a h. calls s t \<noteq> Some (InHandleCommit uid a h)"
  proof -
    from d that have "dom (userLocks (validator s)) = {}" by simp
    then show ?thesis by simp
  qed
  with d show ?thesis by blast
qed

text \<open>
  C8, as amended. In every state reached as above: a call of \<open>HandleCommit\<close> whose
  \<open>lockUser\<close> has returned, and which has not yet returned itself, holds the lock of its
  \<open>account.UID\<close> (the map has its \<open>userLock\<close> for that user, and the mutex of it is
  locked); no two such calls are for the same user, so the bodies of two calls of
  \<open>HandleCommit\<close> for one user never run at the same time. The steps of \<open>HandleSync\<close>
  change neither the validator nor the heap of locks: \<open>HandleSync\<close> acquires no lock.
\<close>

theorem HandleCommit_serialized:
  assumes "run evs (initial_state dir) = Some s"
    and "\<forall>e \<in> set evs. goroutine e < 2 ^ 31"
  shows "(\<forall>t uid a. calls s t = Some (InHandleCommit uid a True) \<longrightarrow>
            userLocks (validator s) uid = Some a \<and> lk (heap s a)) \<and>
         (\<forall>t t' uid a a'. calls s t = Some (InHandleCommit uid a True) \<and>
            calls s t' = Some (InHandleCommit uid a' True) \<longrightarrow> t = t') \<and>
         (\<forall>t d s'. step (SyncEnter t d) s = Some s' \<longrightarrow>
            validator s' = validator s \<and> heap s' = heap s) \<and>
         (\<forall>t s'. step (SyncReturn t) s = Some s' \<longrightarrow>
            validator s' = validator s \<and> heap s' = heap s)"
proof -
  from lock_inv_reachable [OF assms]
  have inv: "table_inv (userLocks (validator s)) (heap s) (heap_next s) (calls s)"
    by (simp add: lock_inv_def)
  have held: "userLocks (validator s) uid = Some a \<and> lk (heap s a)"
    if "calls s t = Some (InHandleCommit uid a True)" for t uid a
    using table_inv_held [OF inv that] table_inv_locked [OF inv that] by simp
  have excl: "t = t'"
    if "calls s t = Some (InHandleCommit uid a True)"
      "calls s t' = Some (InHandleCommit uid a' True)" for t t' uid a a'
  proof -
    from table_inv_held [OF inv that(1)] table_inv_held [OF inv that(2)] have "a' = a" by simp
    with that table_inv_unique [OF inv, of t uid a t' uid] show ?thesis by simp
  qed
  have sync1: "validator s' = validator s \<and> heap s' = heap s"
    if "step (SyncEnter t d) s = Some s'" for t d s'
    using that by (auto split: option.splits)
  have sync2: "validator s' = validator s \<and> heap s' = heap s"
    if "step (SyncReturn t) s = Some s'" for t s'
    using that by (auto split: option.splits call.splits)
  from held excl sync1 sync2 show ?thesis by blast
qed

subsection \<open>The lock table at concrete runs\<close>

theorem userLocks_clean_witness:
  "(\<exists>s. run [CommitLockUser 1 5, CommitLockUser 2 5, CommitAcquire 2, CommitReturn 2,
            CommitAcquire 1, CommitReturn 1] (initial_state (Some fx_directory)) = Some s \<and>
        list_all (\<lambda>e. goroutine e < 2 ^ 31)
          [CommitLockUser 1 5, CommitLockUser 2 5, CommitAcquire 2, CommitReturn 2,
           CommitAcquire 1, CommitReturn 1] \<and>
        userLocks (validator s) = Map.empty) \<and>
   (\<exists>s. run [CommitLockUser 1 5, CommitLockUser 2 5, CommitAcquire 2, CommitReturn 2]
          (initial_state (Some fx_directory)) = Some s \<and>
        dom (userLocks (validator s)) = {5}) \<and>
   (\<exists>r s. HandleCommit fx_pkgs 1 fx_now fx_host \<lparr>UID = 5\<rparr> fx_msg_update None None
          (initial_state (Some fx_directory)) = Some (r, s) \<and>
        userLocks (validator s) = Map.empty)"
proof -
  let ?I = "initial_state (Some fx_directory) :: (string, fx_ident) relay_state"
  let ?all = "[CommitLockUser 1 5, CommitLockUser 2 5, CommitAcquire 2, CommitReturn 2,
      CommitAcquire 1, CommitReturn 1]"
  let ?part = "[CommitLockUser 1 5, CommitLockUser 2 5, CommitAcquire 2, CommitReturn 2]"
  let ?one = "[CommitLockUser 1 (UID \<lparr>UID = 5\<rparr>), CommitAcquire 1, CommitReturn 1]"
  have "\<exists>s. run ?all ?I = Some s \<and>
      (\<forall>t uid a h. calls s t \<noteq> Some (InHandleCommit uid a h))"
    by (simp add: initial_state_def NewValidator_def lockUser_enter_def lockUser_release_def)
  then obtain s where s: "run ?all ?I = Some s"
    and idle: "\<forall>t uid a h. calls s t \<noteq> Some (InHandleCommit uid a h)" by blast
  have b: "\<forall>e \<in> set ?all. goroutine e < 2 ^ 31" by simp
  from userLocks_clean [OF s b] idle have "userLocks (validator s) = Map.empty" by blast
  with s have first: "\<exists>s. run ?all ?I = Some s \<and> list_all (\<lambda>e. goroutine e < 2 ^ 31) ?all \<and>
      userLocks (validator s) = Map.empty"
    by simp
  have "\<exists>s. run ?part ?I = Some s \<and>
      {uid. \<exists>t a h. calls s t = Some (InHandleCommit uid a h)} = {5}"
    by (auto simp: initial_state_def NewValidator_def lockUser_enter_def lockUser_release_def)
  then obtain s' where s': "run ?part ?I = Some s'"
    and one: "{uid. \<exists>t a h. calls s' t = Some (InHandleCommit uid a h)} = {5}" by blast
  have b': "\<forall>e \<in> set ?part. goroutine e < 2 ^ 31" by simp
  from userLocks_clean [OF s' b'] one have "dom (userLocks (validator s')) = {5}" by simp
  with s' have second: "\<exists>s. run ?part ?I = Some s \<and> dom (userLocks (validator s)) = {5}"
    by blast
  have "\<exists>r s. HandleCommit fx_pkgs 1 fx_now fx_host \<lparr>UID = 5\<rparr> fx_msg_update None None ?I =
      Some (r, s) \<and> (\<forall>t uid a h. calls s t \<noteq> Some (InHandleCommit uid a h))"
    by (simp add: HandleCommit_def initial_state_def NewValidator_def lockUser_enter_def
        lockUser_release_def)
  then obtain r s'' where h: "HandleCommit fx_pkgs 1 fx_now fx_host \<lparr>UID = 5\<rparr> fx_msg_update
      None None ?I = Some (r, s'')"
    and idle'': "\<forall>t uid a h. calls s'' t \<noteq> Some (InHandleCommit uid a h)" by blast
  have b'': "\<forall>e \<in> set ?one. goroutine e < 2 ^ 31" by simp
  from userLocks_clean [OF HandleCommit_run [OF h] b''] idle''
  have "userLocks (validator s'') = Map.empty" by blast
  with h have third: "\<exists>r s. HandleCommit fx_pkgs 1 fx_now fx_host \<lparr>UID = 5\<rparr> fx_msg_update
      None None ?I = Some (r, s) \<and> userLocks (validator s) = Map.empty"
    by blast
  from first second third show ?thesis by blast
qed

theorem HandleCommit_serialized_witness:
  "\<exists>s. run [CommitLockUser 1 5, CommitLockUser 2 5, CommitAcquire 2]
         (initial_state (Some fx_directory)) = Some s \<and>
       list_all (\<lambda>e. goroutine e < 2 ^ 31)
         [CommitLockUser 1 5, CommitLockUser 2 5, CommitAcquire 2] \<and>
       calls s 2 = Some (InHandleCommit 5 0 True) \<and>
       calls s 1 = Some (InHandleCommit 5 0 False) \<and>
       userLocks (validator s) 5 = Some 0 \<and> lk (heap s 0) \<and>
       step (CommitAcquire 1) s = None"
proof -
  let ?I = "initial_state (Some fx_directory) :: (string, fx_ident) relay_state"
  let ?evs = "[CommitLockUser 1 5, CommitLockUser 2 5, CommitAcquire 2]"
  have "\<exists>s. run ?evs ?I = Some s \<and> calls s 2 = Some (InHandleCommit 5 0 True) \<and>
      calls s 1 = Some (InHandleCommit 5 0 False)"
    by (simp add: initial_state_def NewValidator_def lockUser_enter_def)
  then obtain s where s: "run ?evs ?I = Some s"
    and c2: "calls s 2 = Some (InHandleCommit 5 0 True)"
    and c1: "calls s 1 = Some (InHandleCommit 5 0 False)" by blast
  have b: "\<forall>e \<in> set ?evs. goroutine e < 2 ^ 31" by simp
  from HandleCommit_serialized [OF s b] c2
  have held: "userLocks (validator s) 5 = Some 0 \<and> lk (heap s 0)" by blast
  with c1 have "step (CommitAcquire 1) s = None" by simp
  with s c1 c2 held show ?thesis by simp
qed

text \<open>
  Against C8 as stated: two calls of \<open>HandleSync\<close> for the same account are in progress
  at the same time, and the map of user locks is empty, so neither holds a user lock.
\<close>

theorem HandleSync_not_serialized:
  "\<exists>s. run [SyncEnter 1 ''did:plc:alice'', SyncEnter 2 ''did:plc:alice'']
         (initial_state (Some fx_directory)) = Some s \<and>
       calls s 1 = Some (InHandleSync ''did:plc:alice'') \<and>
       calls s 2 = Some (InHandleSync ''did:plc:alice'') \<and>
       userLocks (validator s) = Map.empty"
  by (simp add: initial_state_def NewValidator_def)

end
